theory Spec2Isabelle
  imports Complex_Main
begin

section \<open>JavaScript values\<close>

text \<open>
  Step results, step configuration entries and Gateway response bodies are untyped
  (\<^verbatim>\<open>any\<close>) in the source. They are modelled by the JSON-shaped values below.
  Numbers are restricted to the integers and NaN; every other JavaScript number is
  outside the model.
\<close>

datatype jsval =
    JUndefined
  | JNull
  | JBool bool
  | JNum int
  | JNaN
  | JStr string
  | JArr "jsval list"
  | JObj "(string \<times> jsval) list"

text \<open>ToBoolean: what \<^verbatim>\<open>if (v)\<close>, \<^verbatim>\<open>!v\<close> and \<^verbatim>\<open>a || b\<close> test.\<close>

fun truthy :: "jsval \<Rightarrow> bool" where
  "truthy JUndefined = False"
| "truthy JNull = False"
| "truthy (JBool b) = b"
| "truthy (JNum n) = (n \<noteq> 0)"
| "truthy JNaN = False"
| "truthy (JStr s) = (s \<noteq> [])"
| "truthy (JArr xs) = True"
| "truthy (JObj kvs) = True"

text \<open>\<^verbatim>\<open>a || b\<close>\<close>

definition js_or :: "jsval \<Rightarrow> jsval \<Rightarrow> jsval" where
  "js_or a b = (if truthy a then a else b)"

text \<open>A value is absent when it is \<^verbatim>\<open>undefined\<close> or \<^verbatim>\<open>null\<close>.\<close>

fun absent :: "jsval \<Rightarrow> bool" where
  "absent JUndefined = True"
| "absent JNull = True"
| "absent v = False"

text \<open>Property access \<^verbatim>\<open>o.k\<close> and \<^verbatim>\<open>o?.k\<close> on a value that is an object or absent.\<close>

fun field :: "jsval \<Rightarrow> string \<Rightarrow> jsval" where
  "field (JObj kvs) k = (case map_of kvs k of None \<Rightarrow> JUndefined | Some v \<Rightarrow> v)"
| "field v k = JUndefined"


text \<open>Decimal rendering of numbers, as template literals produce it.\<close>

fun digits :: "nat \<Rightarrow> string" where
  "digits n = (if n < 10 then [char_of (48 + n)] else digits (n div 10) @ [char_of (48 + n mod 10)])"

declare digits.simps [simp del]

definition string_of_int :: "int \<Rightarrow> string" where
  "string_of_int i = (if i < 0 then CHR ''-'' # digits (nat (- i)) else digits (nat i))"

fun join_comma :: "string list \<Rightarrow> string" where
  "join_comma [] = []"
| "join_comma [s] = s"
| "join_comma (s # t # ss) = s @ '','' @ join_comma (t # ss)"

text \<open>ToString, as a template literal \<^verbatim>\<open>`${v}`\<close> applies it.\<close>

fun js_string :: "jsval \<Rightarrow> string" where
  "js_string JUndefined = ''undefined''"
| "js_string JNull = ''null''"
| "js_string (JBool b) = (if b then ''true'' else ''false'')"
| "js_string (JNum n) = string_of_int n"
| "js_string JNaN = ''NaN''"
| "js_string (JStr s) = s"
| "js_string (JArr xs) = join_comma (map (\<lambda>x. if absent x then [] else js_string x) xs)"
| "js_string (JObj kvs) = ''[object Object]''"

text \<open>
  A thrown value. Every failure in the source is an \<^verbatim>\<open>Error\<close> object, read through
  its \<^verbatim>\<open>message\<close>; thrown values that are not objects are outside the model.
\<close>

datatype js_error = Error (error_message: string)

type_synonym 'a outcome = "js_error + 'a"

text \<open>\<^verbatim>\<open>`${err}`\<close> for an Error object.\<close>

definition error_string :: "js_error \<Rightarrow> string" where
  "error_string e = ''Error: '' @ error_message e"


section \<open>Data model (shared/schema.ts)\<close>

text \<open>
  The timestamp of a log entry is the wall-clock reading at emission, kept as a number
  of milliseconds instead of its ISO rendering.
\<close>

record LogEntry =
  timestamp :: nat
  level :: string
  category :: string
  message :: string

record AutomationStep =
  step_id :: string
  step_type :: string
  description :: string
  config :: "(string \<times> jsval) list"
  step_order :: int

record BrowserConfig =
  headless :: bool
  viewport :: "(int \<times> int) option"
  userAgent :: "string option"

record Workflow =
  workflow_id :: string
  workflow_name :: string
  steps :: "AutomationStep list"
  executionMode :: string
  browserConfig :: "BrowserConfig option"

text \<open>
  Token counts are JavaScript numbers holding integers. The estimated cost is a
  floating-point number in the source; here it is an exact rational, so rounding of
  the individual additions is not modelled.
\<close>

record TokenUsage =
  promptTokens :: int
  completionTokens :: int
  totalTokens :: int
  estimatedCost :: rat

record Usage =
  prompt_tokens :: int
  completion_tokens :: int
  total_tokens :: int

text \<open>The canonical response of the Gateway client (interface LLMResponse).\<close>

record LLMResponse =
  response_id :: jsval
  response_model :: string
  response_content :: jsval
  response_tool_calls :: "jsval list"
  finish_reason :: jsval
  usage :: "Usage option"

type_synonym llm_result = "LLMResponse outcome"

text \<open>Messages on the broadcast channel (wsMessageSchema), tagged with the execution id.\<close>

datatype ws_event =
    ExecutionStarted string string
  | ExecutionLog string LogEntry
  | ExecutionProgress string nat nat string
  | ExecutionCompleted string jsval int
  | ExecutionFailed string string

text \<open>Calls on the automation capability (Stagehand), and the timer of a fixed wait.\<close>

datatype call =
    Init bool
  | SetViewportSize int int
  | SetUserAgent string
  | Goto jsval
  | ActCall jsval
  | ExtractCall jsval "jsval option"
  | ObserveCall jsval
  | AgentCall jsval
  | WaitForSelector jsval jsval
  | SetTimeout jsval
  | ScreenshotCall jsval jsval
  | Evaluate jsval jsval
  | Close

text \<open>
  Everything the executor does to the outside, in program order: a broadcast, a
  request to persist the log sequence (fire-and-forget), a call on the automation
  capability, and a language-model request made by the \<^verbatim>\<open>llmClient\<close> callback,
  with what \<^verbatim>\<open>customLLM.createChatCompletion\<close> produced for it.
\<close>

datatype effect =
    Emitted ws_event
  | PersistLogs
  | Called call
  | Completion llm_result

text \<open>
  The environment is deterministic but otherwise arbitrary: how the automation
  capability answers a call may depend on everything that happened before it. Its
  answer comes with the results of the language-model requests the capability made
  through the \<^verbatim>\<open>llmClient\<close> callback while the call was running. The clock and the
  two library functions whose result depends on floating point or on a JSON parser
  are part of the environment too.
\<close>

record environment =
  respond :: "effect list \<Rightarrow> call \<Rightarrow> jsval outcome \<times> llm_result list"
  clock :: "effect list \<Rightarrow> nat"
  parseJSON :: "string \<Rightarrow> jsval outcome"
  toFixed2 :: "int \<Rightarrow> string"

section \<open>The executor (server/lib/workflow-executor.ts)\<close>

text \<open>
  The fields of class WorkflowExecutor. \<open>stagehand\<close> says whether the handle is
  non-null; \<open>trace\<close> is the history of effects, which the class does not hold but
  the outside observes.
\<close>

record executor =
  executionId :: string
  stagehand :: bool
  logs :: "LogEntry list"
  startTime :: nat
  tokenUsage :: TokenUsage
  trace :: "effect list"

definition new_executor :: "string \<Rightarrow> effect list \<Rightarrow> executor" where
  "new_executor eid history =
     \<lparr>executionId = eid, stagehand = False, logs = [], startTime = 0,
      tokenUsage = \<lparr>promptTokens = 0, completionTokens = 0, totalTokens = 0, estimatedCost = 0\<rparr>,
      trace = history\<rparr>"

definition emit :: "ws_event \<Rightarrow> executor \<Rightarrow> executor" where
  "emit ev s = s\<lparr>trace := trace s @ [Emitted ev]\<rparr>"

definition addLog :: "environment \<Rightarrow> string \<Rightarrow> string \<Rightarrow> string \<Rightarrow> executor \<Rightarrow> executor" where
  "addLog E lvl cat msg s =
     (let log = \<lparr>timestamp = clock E (trace s), level = lvl, category = cat, message = msg\<rparr>
      in s\<lparr>logs := logs s @ [log],
           trace := trace s @ [Emitted (ExecutionLog (executionId s) log), PersistLogs]\<rparr>)"

text \<open>Token accounting inside the \<^verbatim>\<open>llmClient\<close> callback (lines 92-101).\<close>

definition track :: "Usage \<Rightarrow> TokenUsage \<Rightarrow> TokenUsage" where
  "track u t =
     \<lparr>promptTokens = promptTokens t + prompt_tokens u,
      completionTokens = completionTokens t + completion_tokens u,
      totalTokens = totalTokens t + total_tokens u,
      estimatedCost = estimatedCost t +
        ((of_int (prompt_tokens u) / 1000) * (3 / 100) +
         (of_int (completion_tokens u) / 1000) * (6 / 100))\<rparr>"

text \<open>
  The callback handed to Stagehand: one run of it per language-model request, given
  what \<^verbatim>\<open>customLLM.createChatCompletion\<close> produced.
\<close>

definition llmClient :: "environment \<Rightarrow> llm_result \<Rightarrow> executor \<Rightarrow> executor" where
  "llmClient E r s =
     (let s1 = s\<lparr>trace := trace s @ [Completion r]\<rparr>
      in case r of
           Inr response \<Rightarrow>
             (case usage response of
                Some u \<Rightarrow> s1\<lparr>tokenUsage := track u (tokenUsage s1)\<rparr>
              | None \<Rightarrow> s1)
         | Inl e \<Rightarrow> addLog E ''error'' ''llm'' (''LLM request failed: '' @ error_message e) s1)"

definition callbacks :: "environment \<Rightarrow> llm_result list \<Rightarrow> executor \<Rightarrow> executor" where
  "callbacks E ls s = foldl (\<lambda>s' l. llmClient E l s') s ls"

subsection \<open>Asynchronous functions\<close>

text \<open>
  An \<^verbatim>\<open>async\<close> function of the executor runs synchronously up to its first
  \<^verbatim>\<open>await\<close>. There it is either settled already, or it waits: for a call on the
  automation capability, or (no call) for the next turn of the event loop. What it does
  once the awaited result is there is the continuation: its own outcome, and the log
  entries it adds. Every step function of the source awaits at most once.
\<close>

type_synonym continuation = "jsval outcome \<Rightarrow> jsval outcome \<times> (executor \<Rightarrow> executor)"

datatype started =
    Settled "jsval outcome"
  | Waiting "call option" continuation

text \<open>A step that has been started: its outcome, and what remains to happen when it settles.\<close>

type_synonym inflight = "jsval outcome \<times> llm_result list \<times> (executor \<Rightarrow> executor)"

definition issue :: "environment \<Rightarrow> started \<Rightarrow> executor \<Rightarrow> inflight \<times> executor" where
  "issue E st s =
     (case st of
        Settled r \<Rightarrow> ((r, [], id), s)
      | Waiting None k \<Rightarrow> (let (res, upd) = k (Inr JUndefined) in ((res, [], upd), s))
      | Waiting (Some c) k \<Rightarrow>
          (let (r, ls) = respond E (trace s) c;
               (res, upd) = k r
           in ((res, ls, upd), s\<lparr>trace := trace s @ [Called c]\<rparr>)))"

definition settle :: "environment \<Rightarrow> inflight \<Rightarrow> executor \<Rightarrow> executor" where
  "settle E p s = (case p of (res, ls, upd) \<Rightarrow> upd (callbacks E ls s))"

text \<open>\<^verbatim>\<open>await f(...)\<close> with nothing else running: the call is made and settles at once.\<close>

definition await :: "environment \<Rightarrow> started \<times> executor \<Rightarrow> jsval outcome \<times> executor" where
  "await E p =
     (case p of (st, s) \<Rightarrow>
        (let (q, s1) = issue E st s in (fst q, settle E q s1)))"

text \<open>A call made where the source awaits it directly, as in initialisation and cleanup.\<close>

definition perform :: "environment \<Rightarrow> call \<Rightarrow> executor \<Rightarrow> jsval outcome \<times> executor" where
  "perform E c s = await E (Waiting (Some c) (\<lambda>r. (r, id)), s)"

subsection \<open>Step functions\<close>

text \<open>\<^verbatim>\<open>step.config.k\<close>\<close>

definition cfg :: "AutomationStep \<Rightarrow> string \<Rightarrow> jsval" where
  "cfg step k = (case map_of (config step) k of None \<Rightarrow> JUndefined | Some v \<Rightarrow> v)"

definition executeNavigate :: "environment \<Rightarrow> AutomationStep \<Rightarrow> executor \<Rightarrow> started \<times> executor" where
  "executeNavigate E step s =
     (let url = js_or (cfg step ''url'') (JStr []);
          s1 = addLog E ''info'' ''navigation'' (''Navigating to '' @ js_string url) s
      in (Waiting (Some (Goto url))
            (\<lambda>r. case r of
               Inl e \<Rightarrow> (Inl e, id)
             | Inr v \<Rightarrow> (Inr JUndefined,
                 addLog E ''success'' ''navigation'' (''Successfully navigated to '' @ js_string url))),
          s1))"

definition executeAct :: "environment \<Rightarrow> AutomationStep \<Rightarrow> executor \<Rightarrow> started \<times> executor" where
  "executeAct E step s =
     (let action = js_or (cfg step ''action'') (JStr (description step));
          s1 = addLog E ''info'' ''act'' (''Performing action: '' @ js_string action) s
      in (Waiting (Some (ActCall action))
            (\<lambda>r. case r of
               Inl e \<Rightarrow> (Inl e, id)
             | Inr v \<Rightarrow> (Inr v,
                 addLog E ''success'' ''act'' (''Action completed: '' @ js_string action))),
          s1))"

definition executeExtract :: "environment \<Rightarrow> AutomationStep \<Rightarrow> executor \<Rightarrow> started \<times> executor" where
  "executeExtract E step s =
     (let instruction = js_or (cfg step ''instruction'') (JStr (description step));
          schema = cfg step ''schema'';
          s1 = addLog E ''info'' ''extract'' (''Extracting data: '' @ js_string instruction) s;
          k = (\<lambda>r. case r of
                 Inl e \<Rightarrow> (Inl e, id)
               | Inr v \<Rightarrow> (Inr v, addLog E ''success'' ''extract'' ''Data extracted successfully''))
      in if truthy schema then
           (case (case schema of JStr text \<Rightarrow> parseJSON E text | other \<Rightarrow> Inr other) of
              Inl e \<Rightarrow> (Settled (Inl e), s1)
            | Inr schemaObj \<Rightarrow> (Waiting (Some (ExtractCall instruction (Some schemaObj))) k, s1))
         else (Waiting (Some (ExtractCall instruction None)) k, s1))"

definition executeObserve :: "environment \<Rightarrow> AutomationStep \<Rightarrow> executor \<Rightarrow> started \<times> executor" where
  "executeObserve E step s =
     (let instruction = js_or (cfg step ''instruction'') (JStr (description step));
          s1 = addLog E ''info'' ''observe'' (''Observing: '' @ js_string instruction) s
      in (Waiting (Some (ObserveCall instruction))
            (\<lambda>r. case r of
               Inl e \<Rightarrow> (Inl e, id)
             | Inr v \<Rightarrow> (Inr v, addLog E ''success'' ''observe'' ''Observation completed'')),
          s1))"

definition executeAgent :: "environment \<Rightarrow> AutomationStep \<Rightarrow> executor \<Rightarrow> started \<times> executor" where
  "executeAgent E step s =
     (let instruction = js_or (cfg step ''instruction'') (JStr (description step));
          s1 = addLog E ''info'' ''agent'' (''Starting autonomous agent: '' @ js_string instruction) s
      in (Waiting (Some (AgentCall instruction))
            (\<lambda>r. case r of
               Inl e \<Rightarrow> (Inl e, id)
             | Inr v \<Rightarrow> (Inr v, addLog E ''success'' ''agent'' ''Agent completed successfully'')),
          s1))"

text \<open>The timer of a fixed wait always fires: whatever the environment answers is ignored.\<close>

definition executeWait :: "environment \<Rightarrow> AutomationStep \<Rightarrow> executor \<Rightarrow> started \<times> executor" where
  "executeWait E step s =
     (let duration = js_or (cfg step ''duration'') (JNum 1000);
          selector = cfg step ''selector''
      in if truthy selector then
           (Waiting (Some (WaitForSelector selector duration))
              (\<lambda>r. case r of
                 Inl e \<Rightarrow> (Inl e, id)
               | Inr v \<Rightarrow> (Inr JUndefined,
                   addLog E ''success'' ''wait'' (''Element found: '' @ js_string selector))),
            addLog E ''info'' ''wait'' (''Waiting for element: '' @ js_string selector) s)
         else
           (Waiting (Some (SetTimeout duration))
              (\<lambda>r. (Inr JUndefined, addLog E ''success'' ''wait'' ''Wait completed'')),
            addLog E ''info'' ''wait'' (''Waiting for '' @ js_string duration @ ''ms'') s))"

definition executeScreenshot :: "environment \<Rightarrow> AutomationStep \<Rightarrow> executor \<Rightarrow> started \<times> executor" where
  "executeScreenshot E step s =
     (let path = js_or (cfg step ''path'')
                   (JStr (''screenshot-'' @ digits (clock E (trace s)) @ ''.png''));
          s1 = addLog E ''info'' ''screenshot'' (''Taking screenshot: '' @ js_string path) s
      in (Waiting (Some (ScreenshotCall path (js_or (cfg step ''fullPage'') (JBool False))))
            (\<lambda>r. case r of
               Inl e \<Rightarrow> (Inl e, id)
             | Inr v \<Rightarrow> (Inr path,
                 addLog E ''success'' ''screenshot'' (''Screenshot saved: '' @ js_string path))),
          s1))"

definition executeScroll :: "environment \<Rightarrow> AutomationStep \<Rightarrow> executor \<Rightarrow> started \<times> executor" where
  "executeScroll E step s =
     (let direction = js_or (cfg step ''direction'') (JStr ''down'');
          amount = js_or (cfg step ''amount'') (JNum 500);
          s1 = addLog E ''info'' ''scroll''
                 (''Scrolling '' @ js_string direction @ '' by '' @ js_string amount @ ''px'') s
      in (Waiting (Some (Evaluate amount direction))
            (\<lambda>r. case r of
               Inl e \<Rightarrow> (Inl e, id)
             | Inr v \<Rightarrow> (Inr JUndefined, addLog E ''success'' ''scroll'' ''Scroll completed'')),
          s1))"

text \<open>The \<^verbatim>\<open>switch\<close> of executeStep; \<open>None\<close> is its \<^verbatim>\<open>default\<close> branch.\<close>

definition dispatch :: "environment \<Rightarrow> AutomationStep \<Rightarrow> executor \<Rightarrow> (started \<times> executor) option" where
  "dispatch E step s =
     (if step_type step = ''navigate'' then Some (executeNavigate E step s)
      else if step_type step = ''act'' then Some (executeAct E step s)
      else if step_type step = ''extract'' then Some (executeExtract E step s)
      else if step_type step = ''observe'' then Some (executeObserve E step s)
      else if step_type step = ''agent'' then Some (executeAgent E step s)
      else if step_type step = ''wait'' then Some (executeWait E step s)
      else if step_type step = ''screenshot'' then Some (executeScreenshot E step s)
      else if step_type step = ''scroll'' then Some (executeScroll E step s)
      else None)"

text \<open>The end of executeStep: the success entry and \<^verbatim>\<open>return\<close>, or the \<^verbatim>\<open>catch\<close> block.\<close>

definition step_done :: "environment \<Rightarrow> AutomationStep \<Rightarrow> jsval outcome \<Rightarrow> jsval outcome \<times> (executor \<Rightarrow> executor)" where
  "step_done E step r =
     (case r of
        Inr v \<Rightarrow> (Inr v,
          addLog E ''success'' ''step''
            (''Step '' @ string_of_int (step_order step + 1) @ '' completed successfully''))
      | Inl e \<Rightarrow> (Inl e,
          addLog E ''error'' ''step''
            (''Step '' @ string_of_int (step_order step + 1) @ '' failed: '' @ error_message e)))"

text \<open>
  \<^verbatim>\<open>result = await this.executeX(step)\<close> followed by the end of executeStep: the
  awaited function's continuation runs first. Awaiting a function that has settled
  already still gives up the turn.
\<close>

definition then_done :: "environment \<Rightarrow> AutomationStep \<Rightarrow> started \<Rightarrow> started" where
  "then_done E step st =
     (case st of
        Settled r \<Rightarrow> Waiting None (\<lambda>u. step_done E step r)
      | Waiting c k \<Rightarrow>
          Waiting c (\<lambda>r. let (res, upd) = k r; (res', fin) = step_done E step res
                          in (res', fin \<circ> upd)))"

definition executeStep :: "environment \<Rightarrow> AutomationStep \<Rightarrow> executor \<Rightarrow> started \<times> executor" where
  "executeStep E step s =
     (if \<not> stagehand s then (Settled (Inl (Error ''Stagehand not initialized'')), s)
      else
        (let s1 = addLog E ''info'' ''step''
                    (''Executing step '' @ string_of_int (step_order step + 1) @ '': '' @
                     step_type step @ '' - '' @ description step) s
         in case dispatch E step s1 of
              Some (st, s2) \<Rightarrow> (then_done E step st, s2)
            | None \<Rightarrow>
                (let s2 = addLog E ''warning'' ''step'' (''Unknown step type: '' @ step_type step) s1;
                     s3 = addLog E ''success'' ''step''
                            (''Step '' @ string_of_int (step_order step + 1) @ '' completed successfully'') s2
                 in (Settled (Inr JNull), s3))))"

subsection \<open>Running a workflow\<close>

text \<open>An entry of the results array: \<^verbatim>\<open>{ step: step.id, result }\<close>.\<close>

definition entry :: "AutomationStep \<Rightarrow> jsval \<Rightarrow> jsval" where
  "entry step v = JObj [(''step'', JStr (step_id step)), (''result'', v)]"

text \<open>\<^verbatim>\<open>workflow.browserConfig || { headless: true }\<close>\<close>

definition config_of :: "Workflow \<Rightarrow> BrowserConfig" where
  "config_of workflow =
     (case browserConfig workflow of
        Some c \<Rightarrow> c
      | None \<Rightarrow> \<lparr>headless = True, viewport = None, userAgent = None\<rparr>)"

text \<open>The \<^verbatim>\<open>catch\<close> block of initStagehand (lines 125-128).\<close>

definition init_failed :: "environment \<Rightarrow> js_error \<Rightarrow> executor \<Rightarrow> unit outcome \<times> executor" where
  "init_failed E e s =
     (Inl e, addLog E ''error'' ''initialization'' (''Failed to initialize: '' @ error_message e) s)"

text \<open>\<^verbatim>\<open>if (config.viewport) { await ...setViewportSize(...) }\<close>\<close>

definition apply_viewport :: "environment \<Rightarrow> BrowserConfig \<Rightarrow> executor \<Rightarrow> jsval outcome \<times> executor" where
  "apply_viewport E cfg' s =
     (case viewport cfg' of
        Some (w, h) \<Rightarrow> perform E (SetViewportSize w h) s
      | None \<Rightarrow> (Inr JUndefined, s))"

text \<open>\<^verbatim>\<open>if (config.userAgent) { await ...setUserAgent(...) }\<close>\<close>

definition apply_userAgent :: "environment \<Rightarrow> BrowserConfig \<Rightarrow> executor \<Rightarrow> jsval outcome \<times> executor" where
  "apply_userAgent E cfg' s =
     (case userAgent cfg' of
        Some ua \<Rightarrow> if ua \<noteq> [] then perform E (SetUserAgent ua) s else (Inr JUndefined, s)
      | None \<Rightarrow> (Inr JUndefined, s))"

text \<open>
  initStagehand. The handle is assigned (\<^verbatim>\<open>this.stagehand = new Stagehand(...)\<close>)
  before \<^verbatim>\<open>init()\<close> is awaited; the two constructors are taken not to raise.
\<close>

definition initStagehand :: "environment \<Rightarrow> Workflow \<Rightarrow> executor \<Rightarrow> unit outcome \<times> executor" where
  "initStagehand E workflow s =
     (let s1 = addLog E ''info'' ''initialization'' ''Initializing browser automation...'' s;
          cfg' = config_of workflow;
          s2 = s1\<lparr>stagehand := True\<rparr>
      in case perform E (Init (headless cfg')) s2 of
           (Inl e, s3) \<Rightarrow> init_failed E e s3
         | (Inr v1, s3) \<Rightarrow>
             (case apply_viewport E cfg' s3 of
                (Inl e, s4) \<Rightarrow> init_failed E e s4
              | (Inr v2, s4) \<Rightarrow>
                  (case apply_userAgent E cfg' s4 of
                     (Inl e, s5) \<Rightarrow> init_failed E e s5
                   | (Inr v3, s5) \<Rightarrow>
                       (Inr (), addLog E ''success'' ''initialization''
                                  ''Browser automation initialized successfully'' s5))))"

text \<open>The sequential loop (lines 302-318), from index \<open>i\<close> on.\<close>

fun run_sequential ::
  "environment \<Rightarrow> nat \<Rightarrow> nat \<Rightarrow> AutomationStep list \<Rightarrow> jsval list \<Rightarrow> executor
     \<Rightarrow> (jsval list) outcome \<times> executor" where
  "run_sequential E totalSteps i [] results s = (Inr results, s)"
| "run_sequential E totalSteps i (step # rest) results s =
     (let s1 = emit (ExecutionProgress (executionId s) i totalSteps (description step)) s;
          (r, s2) = await E (executeStep E step s1)
      in case r of
           Inl e \<Rightarrow> (Inl e, s2)
         | Inr v \<Rightarrow>
             run_sequential E totalSteps (Suc i) rest
               (if truthy v then results @ [entry step v] else results) s2)"

text \<open>\<^verbatim>\<open>workflow.steps.map(step => this.executeStep(step))\<close>: every step is started, in order.\<close>

fun start_all :: "environment \<Rightarrow> AutomationStep list \<Rightarrow> executor \<Rightarrow> inflight list \<times> executor" where
  "start_all E [] s = ([], s)"
| "start_all E (step # rest) s =
     (let (st, s1) = executeStep E step s;
          (p, s2) = issue E st s1;
          (ps, s3) = start_all E rest s2
      in (p # ps, s3))"

text \<open>
  \<^verbatim>\<open>await Promise.allSettled(stepPromises)\<close>: the steps in flight settle one by one, in an
  order the executor does not control. Any list of indices is read as such an order:
  its indices in range, each once, and then the steps it leaves out.
\<close>

definition settling_order :: "nat list \<Rightarrow> nat \<Rightarrow> nat list" where
  "settling_order sched n =
     remdups (filter (\<lambda>i. i < n) sched) @ filter (\<lambda>i. i \<notin> set sched) [0..<n]"

definition settle_all :: "environment \<Rightarrow> nat list \<Rightarrow> inflight list \<Rightarrow> executor \<Rightarrow> executor" where
  "settle_all E sched ps s =
     foldl (\<lambda>s' i. settle E (ps ! i) s') s (settling_order sched (length ps))"

text \<open>The \<^verbatim>\<open>forEach\<close> over the settled results (lines 325-331), from index \<open>i\<close> on.\<close>

fun collect ::
  "environment \<Rightarrow> nat \<Rightarrow> (AutomationStep \<times> jsval outcome) list \<Rightarrow> jsval list \<Rightarrow> executor
     \<Rightarrow> jsval list \<times> executor" where
  "collect E i [] results s = (results, s)"
| "collect E i ((step, r) # rest) results s =
     (case r of
        Inr v \<Rightarrow> collect E (Suc i) rest (if truthy v then results @ [entry step v] else results) s
      | Inl e \<Rightarrow>
          collect E (Suc i) rest results
            (addLog E ''error'' ''execution''
               (''Parallel step '' @ string_of_int (int i + 1) @ '' failed: '' @ error_string e) s))"

definition run_parallel ::
  "environment \<Rightarrow> nat list \<Rightarrow> AutomationStep list \<Rightarrow> executor \<Rightarrow> jsval list \<times> executor" where
  "run_parallel E sched sts s =
     (let s1 = addLog E ''info'' ''execution'' ''Executing steps in parallel'' s;
          (ps, s2) = start_all E sts s1;
          s3 = settle_all E sched ps s2
      in collect E 0 (zip sts (map fst ps)) [] s3)"

text \<open>The steps, by execution mode (lines 300-332); a mode that is neither runs no step.\<close>

definition run_steps ::
  "environment \<Rightarrow> nat list \<Rightarrow> Workflow \<Rightarrow> executor \<Rightarrow> (jsval list) outcome \<times> executor" where
  "run_steps E sched workflow s =
     (if executionMode workflow = ''sequential'' then
        run_sequential E (length (steps workflow)) 0 (steps workflow) [] s
      else if executionMode workflow = ''parallel'' then
        (case run_parallel E sched (steps workflow) s of (res, s') \<Rightarrow> (Inr res, s'))
      else (Inr [], s))"

text \<open>
  The end of the \<^verbatim>\<open>try\<close> block (lines 334-351): the last progress event, the
  duration, and the results value that is returned.
\<close>

definition completed ::
  "environment \<Rightarrow> nat \<Rightarrow> jsval list \<Rightarrow> executor \<Rightarrow> (jsval \<times> int) \<times> executor" where
  "completed E totalSteps results s =
     (let s3 = emit (ExecutionProgress (executionId s) totalSteps totalSteps ''Completed'') s;
          duration = int (clock E (trace s3)) - int (startTime s3);
          s4 = addLog E ''success'' ''execution''
                 (''Workflow completed in '' @ toFixed2 E duration @ ''s'') s3
      in ((case results of [e] \<Rightarrow> field e ''result'' | other \<Rightarrow> JArr results, duration), s4))"

text \<open>The body of the \<^verbatim>\<open>try\<close> block: the results value and the duration it returns.\<close>

definition try_block ::
  "environment \<Rightarrow> nat list \<Rightarrow> Workflow \<Rightarrow> executor \<Rightarrow> (jsval \<times> int) outcome \<times> executor" where
  "try_block E sched workflow s =
     (case initStagehand E workflow s of
        (Inl e, s1) \<Rightarrow> (Inl e, s1)
      | (Inr u, s1) \<Rightarrow>
          (case run_steps E sched workflow s1 of
             (Inl e, s2) \<Rightarrow> (Inl e, s2)
           | (Inr results, s2) \<Rightarrow>
               (case completed E (length (steps workflow)) results s2 of
                  (x, s4) \<Rightarrow> (Inr x, s4))))"

definition catch_block :: "environment \<Rightarrow> js_error \<Rightarrow> executor \<Rightarrow> (jsval \<times> int) \<times> executor" where
  "catch_block E e s =
     (let duration = int (clock E (trace s)) - int (startTime s);
          s1 = addLog E ''error'' ''execution'' (''Workflow failed: '' @ error_message e) s
      in ((JNull, duration), s1))"

text \<open>cleanup has a \<^verbatim>\<open>try\<close>/\<^verbatim>\<open>catch\<close> of its own around the close.\<close>

definition cleanup :: "environment \<Rightarrow> executor \<Rightarrow> unit outcome \<times> executor" where
  "cleanup E s =
     (if stagehand s then
        (let s1 = addLog E ''info'' ''cleanup'' ''Closing browser instance'' s;
             (r, s2) = perform E Close s1
         in case r of
              Inr v \<Rightarrow> (Inr (), addLog E ''success'' ''cleanup'' ''Browser closed successfully''
                                  (s2\<lparr>stagehand := False\<rparr>))
            | Inl e \<Rightarrow> (Inr (), addLog E ''warning'' ''cleanup''
                                  (''Browser cleanup warning: '' @ error_message e) s2))
      else (Inr (), s))"

text \<open>
  What execute returns. The record holds \<^verbatim>\<open>this.logs\<close> and \<^verbatim>\<open>this.tokenUsage\<close> by
  reference, and the \<^verbatim>\<open>finally\<close> block runs before the caller sees the record: the
  caller reads both as they are after cleanup.
\<close>

record run_result =
  results :: jsval
  result_logs :: "LogEntry list"
  duration :: int
  result_tokenUsage :: TokenUsage

definition execute ::
  "environment \<Rightarrow> nat list \<Rightarrow> Workflow \<Rightarrow> executor \<Rightarrow> run_result outcome \<times> executor" where
  "execute E sched workflow s =
     (let s1 = s\<lparr>startTime := clock E (trace s)\<rparr>;
          s2 = addLog E ''info'' ''execution'' (''Starting workflow: '' @ workflow_name workflow) s1;
          (r, s3) = try_block E sched workflow s2;
          ((res, d), s4) = (case r of Inr x \<Rightarrow> (x, s3) | Inl e \<Rightarrow> catch_block E e s3);
          (c, s5) = cleanup E s4
      in (case c of
            Inl e \<Rightarrow> Inl e
          | Inr u \<Rightarrow> Inr \<lparr>results = res, result_logs = logs s5, duration = d,
                          result_tokenUsage = tokenUsage s5\<rparr>,
          s5))"

section \<open>The store (MemStorage) and the execute route\<close>

datatype exec_status = Queued | Running | Completed | Failed | Cancelled

record Execution =
  execution_id :: string
  workflowId :: string
  status :: exec_status
  exec_logs :: "LogEntry list"
  exec_results :: "jsval option"
  exec_error :: "string option"
  exec_tokenUsage :: "TokenUsage option"
  startedAt :: "nat option"
  completedAt :: "nat option"
  exec_duration :: "int option"

text \<open>
  \<^verbatim>\<open>Partial<Execution>\<close>: for every field, either no key or the value to store. A key
  whose value is \<^verbatim>\<open>undefined\<close> is a key: it overwrites.
\<close>

record ExecutionUpdate =
  set_id :: "string option"
  set_workflowId :: "string option"
  set_status :: "exec_status option"
  set_logs :: "LogEntry list option"
  set_results :: "jsval option option"
  set_error :: "string option option"
  set_tokenUsage :: "TokenUsage option option"
  set_startedAt :: "nat option option"
  set_completedAt :: "nat option option"
  set_duration :: "int option option"

definition no_update :: ExecutionUpdate where
  "no_update =
     \<lparr>set_id = None, set_workflowId = None, set_status = None, set_logs = None,
      set_results = None, set_error = None, set_tokenUsage = None, set_startedAt = None,
      set_completedAt = None, set_duration = None\<rparr>"

text \<open>\<^verbatim>\<open>{ ...execution, ...updates }\<close>\<close>

definition spread :: "Execution \<Rightarrow> ExecutionUpdate \<Rightarrow> Execution" where
  "spread e u =
     \<lparr>execution_id = (case set_id u of None \<Rightarrow> execution_id e | Some v \<Rightarrow> v),
      workflowId = (case set_workflowId u of None \<Rightarrow> workflowId e | Some v \<Rightarrow> v),
      status = (case set_status u of None \<Rightarrow> status e | Some v \<Rightarrow> v),
      exec_logs = (case set_logs u of None \<Rightarrow> exec_logs e | Some v \<Rightarrow> v),
      exec_results = (case set_results u of None \<Rightarrow> exec_results e | Some v \<Rightarrow> v),
      exec_error = (case set_error u of None \<Rightarrow> exec_error e | Some v \<Rightarrow> v),
      exec_tokenUsage = (case set_tokenUsage u of None \<Rightarrow> exec_tokenUsage e | Some v \<Rightarrow> v),
      startedAt = (case set_startedAt u of None \<Rightarrow> startedAt e | Some v \<Rightarrow> v),
      completedAt = (case set_completedAt u of None \<Rightarrow> completedAt e | Some v \<Rightarrow> v),
      exec_duration = (case set_duration u of None \<Rightarrow> exec_duration e | Some v \<Rightarrow> v)\<rparr>"

text \<open>
  The fields of MemStorage that the execute route reads and writes; of the session,
  the list of execution ids and the time of the last access.
\<close>

record MemStorage =
  workflows :: "string \<rightharpoonup> Workflow"
  executions :: "string \<rightharpoonup> Execution"
  session_executions :: "string list"
  lastAccessedAt :: nat

definition getWorkflow :: "MemStorage \<Rightarrow> string \<Rightarrow> Workflow option" where
  "getWorkflow st wid = workflows st wid"

definition getExecution :: "MemStorage \<Rightarrow> string \<Rightarrow> Execution option" where
  "getExecution st eid = executions st eid"

text \<open>The id is what \<^verbatim>\<open>randomUUID()\<close> returned; \<open>now\<close> is the time of the call.\<close>

definition createExecution :: "MemStorage \<Rightarrow> Execution \<Rightarrow> string \<Rightarrow> nat \<Rightarrow> Execution \<times> MemStorage" where
  "createExecution st insertExecution eid now =
     (let execution = insertExecution\<lparr>execution_id := eid\<rparr>
      in (execution,
          st\<lparr>executions := (executions st)(eid \<mapsto> execution),
             session_executions := session_executions st @ [eid],
             lastAccessedAt := now\<rparr>))"

definition updateExecution ::
  "MemStorage \<Rightarrow> string \<Rightarrow> ExecutionUpdate \<Rightarrow> nat \<Rightarrow> Execution option \<times> MemStorage" where
  "updateExecution st eid updates now =
     (case executions st eid of
        None \<Rightarrow> (None, st)
      | Some execution \<Rightarrow>
          (let updated = spread execution updates
           in (Some updated,
               st\<lparr>executions := (executions st)(eid \<mapsto> updated), lastAccessedAt := now\<rparr>)))"


text \<open>
  The handler of POST /api/workflows/:id/execute. \<open>None\<close> is the 404 response.
  Otherwise the result holds the store after each of the handler's three writes, the
  run's own view of its final state, and everything that was observed from outside.
  The handler's \<^verbatim>\<open>catch\<close> block is the branch taken when execute raises.
\<close>

record route_run =
  after_create :: MemStorage
  after_start :: MemStorage
  after_finish :: MemStorage
  returned :: "run_result outcome"
  observed :: "effect list"

definition execute_route ::
  "environment \<Rightarrow> nat list \<Rightarrow> MemStorage \<Rightarrow> string \<Rightarrow> string \<Rightarrow> route_run option" where
  "execute_route E sched st wid eid =
     (case getWorkflow st wid of
        None \<Rightarrow> None
      | Some workflow \<Rightarrow>
          (let t0 = clock E [];
               (execution, st1) =
                 createExecution st
                   \<lparr>execution_id = [], workflowId = workflow_id workflow, status = Queued,
                    exec_logs = [], exec_results = Some JNull, exec_error = None,
                    exec_tokenUsage = None, startedAt = Some t0, completedAt = None,
                    exec_duration = None\<rparr> eid t0;
               xid = execution_id execution;
               (u, st2) = updateExecution st1 xid (no_update\<lparr>set_status := Some Running\<rparr>) t0;
               started = [Emitted (ExecutionStarted xid (workflow_id workflow))];
               (r, s) = execute E sched workflow (new_executor xid started);
               t1 = clock E (trace s)
           in case r of
                Inr result \<Rightarrow>
                  if results result = JNull then
                    Some \<lparr>after_create = st1, after_start = st2,
                          after_finish =
                            snd (updateExecution st2 xid
                                   (no_update\<lparr>set_status := Some Failed,
                                      set_error := Some (Some ''Workflow execution failed. Check logs for details.''),
                                      set_logs := Some (result_logs result),
                                      set_completedAt := Some (Some t1),
                                      set_duration := Some (Some (duration result)),
                                      set_tokenUsage := Some (Some (result_tokenUsage result))\<rparr>) t1),
                          returned = r,
                          observed = trace s @ [Emitted (ExecutionFailed xid ''Workflow execution failed'')]\<rparr>
                  else
                    Some \<lparr>after_create = st1, after_start = st2,
                          after_finish =
                            snd (updateExecution st2 xid
                                   (no_update\<lparr>set_status := Some Completed,
                                      set_logs := Some (result_logs result),
                                      set_results := Some (Some (results result)),
                                      set_completedAt := Some (Some t1),
                                      set_duration := Some (Some (duration result)),
                                      set_tokenUsage := Some (Some (result_tokenUsage result))\<rparr>) t1),
                          returned = r,
                          observed = trace s @
                            [Emitted (ExecutionCompleted xid (results result) (duration result))]\<rparr>
              | Inl e \<Rightarrow>
                  Some \<lparr>after_create = st1, after_start = st2,
                        after_finish =
                          snd (updateExecution st2 xid
                                 (no_update\<lparr>set_status := Some Failed,
                                    set_error := Some (Some (error_message e)),
                                    set_completedAt := Some (Some t1),
                                    set_logs := Some [],
                                    set_duration := Some (Some (int t1 - int t0)),
                                    set_tokenUsage := Some None\<rparr>) t1),
                        returned = r,
                        observed = trace s @ [Emitted (ExecutionFailed xid (error_message e))]\<rparr>))"

section \<open>The Gateway client (server/lib/custom-llm-client.ts)\<close>




text \<open>The POST as it leaves the client: endpoint, bearer token, and the payload.\<close>

record HttpRequest =
  endpoint :: string
  bearer :: "string option"
  payload_model :: string
  payload_messages :: "(string \<times> string) list"
  payload_temperature :: rat
  payload_max_tokens :: int

datatype net_call = FetchOAuthConfig | Post HttpRequest
















section \<open>Observations\<close>

text \<open>What a stretch of the trace holds: log entries, language-model results, calls.\<close>

fun logs_of :: "effect list \<Rightarrow> LogEntry list" where
  "logs_of [] = []"
| "logs_of (Emitted (ExecutionLog x l) # es) = l # logs_of es"
| "logs_of (e # es) = logs_of es"

fun completions :: "effect list \<Rightarrow> llm_result list" where
  "completions [] = []"
| "completions (Completion r # es) = r # completions es"
| "completions (e # es) = completions es"

fun calls_of :: "effect list \<Rightarrow> call list" where
  "calls_of [] = []"
| "calls_of (Called c # es) = c # calls_of es"
| "calls_of (e # es) = calls_of es"

fun progress_of :: "effect list \<Rightarrow> (nat \<times> nat \<times> string) list" where
  "progress_of [] = []"
| "progress_of (Emitted (ExecutionProgress x i n d) # es) = (i, n, d) # progress_of es"
| "progress_of (e # es) = progress_of es"

text \<open>
  What the step functions do to the executor, and nothing else: add a log entry, run
  the callback, make a call that is not the close.
\<close>

inductive runs :: "environment \<Rightarrow> executor \<Rightarrow> executor \<Rightarrow> bool" for E :: environment where
  runs_refl: "runs E s s"
| runs_addLog: "runs E s s' \<Longrightarrow> runs E s (addLog E l c m s')"
| runs_llmClient: "runs E s s' \<Longrightarrow> runs E s (llmClient E r s')"
| runs_call: "runs E s s' \<Longrightarrow> c \<noteq> Close \<Longrightarrow> runs E s (s'\<lparr>trace := trace s' @ [Called c]\<rparr>)"

text \<open>The usage records that a sequence of language-model results carries.\<close>

fun usages :: "llm_result list \<Rightarrow> Usage list" where
  "usages [] = []"
| "usages (Inl e # rs) = usages rs"
| "usages (Inr response # rs) =
     (case usage response of None \<Rightarrow> usages rs | Some u \<Rightarrow> u # usages rs)"

text \<open>
  The same, for what the step functions below executeStep do: their log entries are
  never of category \<open>step\<close>.
\<close>

inductive quiet :: "environment \<Rightarrow> executor \<Rightarrow> executor \<Rightarrow> bool" for E :: environment where
  quiet_refl: "quiet E s s"
| quiet_addLog: "quiet E s s' \<Longrightarrow> c \<noteq> ''step'' \<Longrightarrow> quiet E s (addLog E l c m s')"
| quiet_llmClient: "quiet E s s' \<Longrightarrow> quiet E s (llmClient E r s')"
| quiet_call: "quiet E s s' \<Longrightarrow> c \<noteq> Close \<Longrightarrow> quiet E s (s'\<lparr>trace := trace s' @ [Called c]\<rparr>)"

definition quietly_started :: "environment \<Rightarrow> started \<Rightarrow> bool" where
  "quietly_started E st =
     (case st of
        Settled r \<Rightarrow> True
      | Waiting c k \<Rightarrow> c \<noteq> Some Close \<and> (\<forall>r s. quiet E s (snd (k r) s)))"

text \<open>
  A started step function is well behaved when what it waits for is not the close, and
  its continuation does to the executor only what step functions do.
\<close>

definition well_started :: "environment \<Rightarrow> started \<Rightarrow> bool" where
  "well_started E st =
     (case st of
        Settled r \<Rightarrow> True
      | Waiting c k \<Rightarrow> c \<noteq> Some Close \<and> (\<forall>r s. runs E s (snd (k r) s)))"

definition well_inflight :: "environment \<Rightarrow> inflight \<Rightarrow> bool" where
  "well_inflight E p = (\<forall>s. runs E s (snd (snd p) s))"

text \<open>
  From one state of the executor to a later one, before cleanup: the trace has grown
  by effects among which there is no close, the log sequence by the entries that were
  broadcast, the token totals by the usage of the language-model results that arrived,
  and a handle that was there is still there.
\<close>

definition working :: "executor \<Rightarrow> executor \<Rightarrow> bool" where
  "working s s' =
     (executionId s' = executionId s \<and> (stagehand s \<longrightarrow> stagehand s') \<and>
      (\<exists>ext. trace s' = trace s @ ext \<and> Close \<notin> set (calls_of ext) \<and>
             logs s' = logs s @ logs_of ext \<and>
             tokenUsage s' = foldl (\<lambda>t u. track u t) (tokenUsage s) (usages (completions ext))))"

text \<open>The state in which the \<^verbatim>\<open>try\<close> block of execute begins (lines 289-290).\<close>

definition begun :: "environment \<Rightarrow> Workflow \<Rightarrow> executor \<Rightarrow> executor" where
  "begun E workflow s =
     addLog E ''info'' ''execution'' (''Starting workflow: '' @ workflow_name workflow)
       (s\<lparr>startTime := clock E (trace s)\<rparr>)"

text \<open>What has been added to the trace between two states of the executor.\<close>

definition new_effects :: "executor \<Rightarrow> executor \<Rightarrow> effect list" where
  "new_effects s s' = drop (length (trace s)) (trace s')"


text \<open>
  The outcome of every step that a sequential run starts, from index \<open>i\<close> on: the
  run stops after the first failure.
\<close>

fun sequential_outcomes ::
  "environment \<Rightarrow> nat \<Rightarrow> nat \<Rightarrow> AutomationStep list \<Rightarrow> executor \<Rightarrow> jsval outcome list" where
  "sequential_outcomes E totalSteps i [] s = []"
| "sequential_outcomes E totalSteps i (step # rest) s =
     (case await E (executeStep E step
                      (emit (ExecutionProgress (executionId s) i totalSteps (description step)) s)) of
        (Inl e, s2) \<Rightarrow> [Inl e]
      | (Inr v, s2) \<Rightarrow> Inr v # sequential_outcomes E totalSteps (Suc i) rest s2)"

text \<open>The outcome of every step of a parallel run, by index.\<close>

definition parallel_outcomes :: "environment \<Rightarrow> AutomationStep list \<Rightarrow> executor \<Rightarrow> jsval outcome list" where
  "parallel_outcomes E sts s =
     map fst (fst (start_all E sts (addLog E ''info'' ''execution'' ''Executing steps in parallel'' s)))"

text \<open>
  The outcomes of the steps of a run whose initialisation ended in state \<open>s\<close>, by
  execution mode.
\<close>

definition step_outcomes :: "environment \<Rightarrow> Workflow \<Rightarrow> executor \<Rightarrow> jsval outcome list" where
  "step_outcomes E workflow s =
     (if executionMode workflow = ''sequential'' then
        sequential_outcomes E (length (steps workflow)) 0 (steps workflow) s
      else if executionMode workflow = ''parallel'' then parallel_outcomes E (steps workflow) s
      else [])"

text \<open>
  Aggregation as the specification words it: in step order, one entry for every step
  that was fulfilled with a value that passes the truthiness test.
\<close>

fun contributions :: "(AutomationStep \<times> jsval outcome) list \<Rightarrow> jsval list" where
  "contributions [] = []"
| "contributions ((step, Inl e) # xs) = contributions xs"
| "contributions ((step, Inr v) # xs) =
     (if truthy v then entry step v # contributions xs else contributions xs)"

fun failures :: "jsval outcome list \<Rightarrow> js_error list" where
  "failures [] = []"
| "failures (Inl e # rs) = e # failures rs"
| "failures (Inr v # rs) = failures rs"

text \<open>The step types that the \<^verbatim>\<open>switch\<close> of executeStep knows.\<close>

definition known_type :: "string \<Rightarrow> bool" where
  "known_type ty =
     (ty = ''navigate'' \<or> ty = ''act'' \<or> ty = ''extract'' \<or> ty = ''observe'' \<or> ty = ''agent'' \<or>
      ty = ''wait'' \<or> ty = ''screenshot'' \<or> ty = ''scroll'')"

text \<open>
  The log entries of category \<open>step\<close> that belong to one step with a given outcome,
  as level and message: the entry before the dispatch, the warning of an unknown type,
  and the entry after it.
\<close>

definition step_entries :: "AutomationStep \<Rightarrow> jsval outcome \<Rightarrow> (string \<times> string) list" where
  "step_entries step r =
     [(''info'', ''Executing step '' @ string_of_int (step_order step + 1) @ '': '' @
                 step_type step @ '' - '' @ description step)] @
     (if known_type (step_type step) then []
      else [(''warning'', ''Unknown step type: '' @ step_type step)]) @
     [case r of
        Inr v \<Rightarrow> (''success'', ''Step '' @ string_of_int (step_order step + 1) @ '' completed successfully'')
      | Inl e \<Rightarrow> (''error'', ''Step '' @ string_of_int (step_order step + 1) @ '' failed: '' @ error_message e)]"

text \<open>The entries of category \<open>step\<close> in a log sequence, as level and message.\<close>

fun step_log :: "LogEntry list \<Rightarrow> (string \<times> string) list" where
  "step_log [] = []"
| "step_log (l # ls) =
     (if category l = ''step'' then (level l, message l) # step_log ls else step_log ls)"

text \<open>
  A trace made of one block of effects for each of the first steps of a list, every
  block preceded by the progress event of its step, indices counting up from \<open>i\<close>.
\<close>

fun interleaved :: "string \<Rightarrow> nat \<Rightarrow> nat \<Rightarrow> AutomationStep list \<Rightarrow> effect list list \<Rightarrow> effect list" where
  "interleaved eid n i (step # sts) (b # bs) =
     Emitted (ExecutionProgress eid i n (description step)) # b @ interleaved eid n (Suc i) sts bs"
| "interleaved eid n i sts bs = []"

text \<open>
  A block of effects is the block of a step with a given outcome: it holds no progress
  event, and its log entries of category \<open>step\<close> are those of the step.
\<close>

definition block_of :: "AutomationStep \<times> jsval outcome \<Rightarrow> effect list \<Rightarrow> bool" where
  "block_of x b =
     (progress_of b = [] \<and> Close \<notin> set (calls_of b) \<and>
      step_log (logs_of b) = step_entries (fst x) (snd x))"




text \<open>Network attempts and token fetches among the calls of a client.\<close>

fun posts :: "net_call list \<Rightarrow> nat" where
  "posts [] = 0"
| "posts (Post r # h) = Suc (posts h)"
| "posts (FetchOAuthConfig # h) = posts h"

fun fetches :: "net_call list \<Rightarrow> nat" where
  "fetches [] = 0"
| "fetches (Post r # h) = fetches h"
| "fetches (FetchOAuthConfig # h) = Suc (fetches h)"

section \<open>Sample inputs\<close>





definition sample_environment :: environment where
  "sample_environment =
     \<lparr>respond = (\<lambda>h c. (Inr JUndefined, [])), clock = length,
      parseJSON = (\<lambda>text. Inl (Error ''Unexpected token'')), toFixed2 = string_of_int\<rparr>"


definition sample_step :: "string \<Rightarrow> string \<Rightarrow> int \<Rightarrow> AutomationStep" where
  "sample_step sid ty n =
     \<lparr>step_id = sid, step_type = ty, description = ''a step'', config = [], step_order = n\<rparr>"

definition sample_workflow :: "string \<Rightarrow> AutomationStep list \<Rightarrow> Workflow" where
  "sample_workflow mode sts =
     \<lparr>workflow_id = ''wf-1'', workflow_name = ''sample'', steps = sts, executionMode = mode,
      browserConfig = None\<rparr>"

text \<open>A store that holds one workflow and no execution yet.\<close>

definition store_with :: "Workflow \<Rightarrow> MemStorage" where
  "store_with workflow =
     \<lparr>workflows = [workflow_id workflow \<mapsto> workflow], executions = Map.empty,
      session_executions = [], lastAccessedAt = 0\<rparr>"





text \<open>An automation capability on which every act fails and everything else succeeds.\<close>

definition act_failing_environment :: environment where
  "act_failing_environment =
     \<lparr>respond = (\<lambda>h c. case c of
                   ActCall a \<Rightarrow> (Inl (Error ''element not found''), [])
                 | other \<Rightarrow> (Inr JUndefined, [])),
      clock = length, parseJSON = (\<lambda>text. Inl (Error ''Unexpected token'')),
      toFixed2 = string_of_int\<rparr>"

section \<open>Basic facts\<close>

lemma js_or_truthy: "truthy (js_or a b) = (truthy a \<or> truthy b)"
  by (simp add: js_or_def)

lemma truthy_not_absent: "truthy v \<Longrightarrow> \<not> absent v"
  by (cases v) simp_all

lemma addLog_fields [simp]:
  "executionId (addLog E l c m s) = executionId s"
  "stagehand (addLog E l c m s) = stagehand s"
  "startTime (addLog E l c m s) = startTime s"
  "tokenUsage (addLog E l c m s) = tokenUsage s"
  "logs (addLog E l c m s) =
     logs s @ [\<lparr>timestamp = clock E (trace s), level = l, category = c, message = m\<rparr>]"
  "trace (addLog E l c m s) =
     trace s @ [Emitted (ExecutionLog (executionId s)
                  \<lparr>timestamp = clock E (trace s), level = l, category = c, message = m\<rparr>),
                PersistLogs]"
  by (simp_all add: addLog_def Let_def)

lemma emit_fields [simp]:
  "executionId (emit ev s) = executionId s"
  "stagehand (emit ev s) = stagehand s"
  "startTime (emit ev s) = startTime s"
  "tokenUsage (emit ev s) = tokenUsage s"
  "logs (emit ev s) = logs s"
  "trace (emit ev s) = trace s @ [Emitted ev]"
  by (simp_all add: emit_def)

lemma logs_of_append [simp]: "logs_of (a @ b) = logs_of a @ logs_of b"
  by (induction a rule: logs_of.induct) simp_all

lemma completions_append [simp]: "completions (a @ b) = completions a @ completions b"
  by (induction a rule: completions.induct) simp_all

lemma calls_of_append [simp]: "calls_of (a @ b) = calls_of a @ calls_of b"
  by (induction a rule: calls_of.induct) simp_all

lemma progress_of_append [simp]: "progress_of (a @ b) = progress_of a @ progress_of b"
  by (induction a rule: progress_of.induct) simp_all

lemma usages_append [simp]: "usages (a @ b) = usages a @ usages b"
  by (induction a rule: usages.induct) (simp_all split: option.splits)

lemma llmClient_fields [simp]:
  "executionId (llmClient E r s) = executionId s"
  "stagehand (llmClient E r s) = stagehand s"
  "startTime (llmClient E r s) = startTime s"
  by (simp_all add: llmClient_def Let_def split: sum.splits option.splits)

lemma llmClient_trace:
  "\<exists>ext. trace (llmClient E r s) = trace s @ ext \<and> calls_of ext = [] \<and> progress_of ext = [] \<and>
         completions ext = [r] \<and> logs (llmClient E r s) = logs s @ logs_of ext \<and>
         tokenUsage (llmClient E r s) = foldl (\<lambda>t u. track u t) (tokenUsage s) (usages [r])"
  by (cases r) (simp_all add: llmClient_def Let_def split: option.splits)

lemma runs_trans: "runs E s2 s3 \<Longrightarrow> runs E s1 s2 \<Longrightarrow> runs E s1 s3"
  by (induction rule: runs.induct) (auto intro: runs.intros)

lemma runs_callbacks: "runs E s s' \<Longrightarrow> runs E s (callbacks E ls s')"
  by (induction ls arbitrary: s') (auto simp: callbacks_def intro: runs.intros)

lemma runs_fields:
  "runs E s s' \<Longrightarrow> executionId s' = executionId s \<and> stagehand s' = stagehand s \<and> startTime s' = startTime s"
  by (induction rule: runs.induct) simp_all

lemma runs_trace:
  "runs E s s' \<Longrightarrow>
     \<exists>ext. trace s' = trace s @ ext \<and> Close \<notin> set (calls_of ext) \<and> progress_of ext = [] \<and>
           logs s' = logs s @ logs_of ext \<and>
           tokenUsage s' = foldl (\<lambda>t u. track u t) (tokenUsage s) (usages (completions ext))"
proof (induction rule: runs.induct)
  case (runs_refl s)
  show ?case by simp
next
  case (runs_addLog s s' l c m)
  then obtain ext where e: "trace s' = trace s @ ext" "Close \<notin> set (calls_of ext)" "progress_of ext = []"
    "logs s' = logs s @ logs_of ext"
    "tokenUsage s' = foldl (\<lambda>t u. track u t) (tokenUsage s) (usages (completions ext))" by blast
  show ?case
    by (rule exI[of _ "ext @ [Emitted (ExecutionLog (executionId s')
                  \<lparr>timestamp = clock E (trace s'), level = l, category = c, message = m\<rparr>), PersistLogs]"])
       (simp add: e)
next
  case (runs_llmClient s s' r)
  then obtain ext where e: "trace s' = trace s @ ext" "Close \<notin> set (calls_of ext)" "progress_of ext = []"
    "logs s' = logs s @ logs_of ext"
    "tokenUsage s' = foldl (\<lambda>t u. track u t) (tokenUsage s) (usages (completions ext))" by blast
  obtain x where x: "trace (llmClient E r s') = trace s' @ x" "calls_of x = []" "progress_of x = []"
         "completions x = [r]" "logs (llmClient E r s') = logs s' @ logs_of x"
         "tokenUsage (llmClient E r s') = foldl (\<lambda>t u. track u t) (tokenUsage s') (usages [r])"
    using llmClient_trace[of E r s'] by blast
  show ?case
    by (rule exI[of _ "ext @ x"]) (simp add: e x)
next
  case (runs_call s s' c)
  then obtain ext where e: "trace s' = trace s @ ext" "Close \<notin> set (calls_of ext)" "progress_of ext = []"
    "logs s' = logs s @ logs_of ext"
    "tokenUsage s' = foldl (\<lambda>t u. track u t) (tokenUsage s) (usages (completions ext))" by blast
  show ?case
    using runs_call.hyps(2) by (intro exI[of _ "ext @ [Called c]"]) (auto simp: e)
qed


lemma runs_addLog1: "runs E s (addLog E l c m s)"
  by (intro runs.intros)

lemma runs_id: "runs E s (id s)"
  by (simp add: runs_refl)

lemmas step_intros = runs_addLog1 runs_id runs_refl

lemma executeNavigate_ok:
  "well_started E (fst (executeNavigate E step s)) \<and> runs E s (snd (executeNavigate E step s))"
  by (auto simp: executeNavigate_def well_started_def Let_def intro: step_intros split: sum.splits)

lemma executeAct_ok:
  "well_started E (fst (executeAct E step s)) \<and> runs E s (snd (executeAct E step s))"
  by (auto simp: executeAct_def well_started_def Let_def intro: step_intros split: sum.splits)

lemma executeExtract_ok:
  "well_started E (fst (executeExtract E step s)) \<and> runs E s (snd (executeExtract E step s))"
  by (auto simp: executeExtract_def well_started_def Let_def intro: step_intros split: sum.splits jsval.splits)

lemma executeObserve_ok:
  "well_started E (fst (executeObserve E step s)) \<and> runs E s (snd (executeObserve E step s))"
  by (auto simp: executeObserve_def well_started_def Let_def intro: step_intros split: sum.splits)

lemma executeAgent_ok:
  "well_started E (fst (executeAgent E step s)) \<and> runs E s (snd (executeAgent E step s))"
  by (auto simp: executeAgent_def well_started_def Let_def intro: step_intros split: sum.splits)

lemma executeWait_ok:
  "well_started E (fst (executeWait E step s)) \<and> runs E s (snd (executeWait E step s))"
  by (auto simp: executeWait_def well_started_def Let_def intro: step_intros split: sum.splits)

lemma executeScreenshot_ok:
  "well_started E (fst (executeScreenshot E step s)) \<and> runs E s (snd (executeScreenshot E step s))"
  by (auto simp: executeScreenshot_def well_started_def Let_def intro: step_intros split: sum.splits)

lemma executeScroll_ok:
  "well_started E (fst (executeScroll E step s)) \<and> runs E s (snd (executeScroll E step s))"
  by (auto simp: executeScroll_def well_started_def Let_def intro: step_intros split: sum.splits)

lemma dispatch_ok:
  "dispatch E step s = Some (st, s') \<Longrightarrow> well_started E st \<and> runs E s s'"
  using executeNavigate_ok[of E step s] executeAct_ok[of E step s] executeExtract_ok[of E step s]
    executeObserve_ok[of E step s] executeAgent_ok[of E step s] executeWait_ok[of E step s]
    executeScreenshot_ok[of E step s] executeScroll_ok[of E step s]
  by (auto simp: dispatch_def split: if_splits)

lemma step_done_ok: "runs E s (snd (step_done E step r) s)"
  by (auto simp: step_done_def intro: step_intros split: sum.splits)

lemma then_done_ok: "well_started E st \<Longrightarrow> well_started E (then_done E step st)"
  by (auto simp: then_done_def well_started_def split_beta Let_def
           intro: runs_trans[OF step_done_ok] step_done_ok split: started.splits)

lemma executeStep_ok:
  "well_started E (fst (executeStep E step s)) \<and> runs E s (snd (executeStep E step s))"
proof (cases "stagehand s")
  case False
  then show ?thesis by (simp add: executeStep_def well_started_def runs_refl)
next
  case True
  let ?s1 = "addLog E ''info'' ''step''
                    (''Executing step '' @ string_of_int (step_order step + 1) @ '': '' @
                     step_type step @ '' - '' @ description step) s"
  show ?thesis
  proof (cases "dispatch E step ?s1")
    case None
    with True show ?thesis
      by (auto simp: executeStep_def well_started_def Let_def intro: runs.intros)
  next
    case (Some p)
    obtain st s2 where p: "p = (st, s2)" by (cases p)
    from dispatch_ok[OF Some[unfolded p]] have "well_started E st" "runs E ?s1 s2" by auto
    then have "well_started E (then_done E step st)" "runs E s s2"
      by (auto intro: then_done_ok runs_trans runs_addLog1)
    with True Some p show ?thesis by (simp add: executeStep_def Let_def)
  qed
qed

lemma issue_ok:
  "well_started E st \<Longrightarrow> well_inflight E (fst (issue E st s)) \<and> runs E s (snd (issue E st s))"
  by (auto simp: issue_def well_started_def well_inflight_def split_beta Let_def
           intro: runs.intros split: started.splits option.splits)

lemma settle_ok: "well_inflight E p \<Longrightarrow> runs E s (settle E p s)"
proof -
  assume w: "well_inflight E p"
  obtain res ls upd where p: "p = (res, ls, upd)" by (cases p)
  have "runs E s (callbacks E ls s)" by (simp add: runs_callbacks runs_refl)
  moreover have "runs E (callbacks E ls s) (upd (callbacks E ls s))"
    using w by (simp add: well_inflight_def p)
  ultimately show ?thesis by (simp add: settle_def p runs_trans)
qed

lemma await_ok: "well_started E st \<Longrightarrow> runs E s (snd (await E (st, s)))"
  using issue_ok[of E st s]
  by (auto simp: await_def split_beta Let_def intro: runs_trans[OF settle_ok])

lemma await_executeStep_runs: "runs E s (snd (await E (executeStep E step s)))"
  using executeStep_ok[of E step s] await_ok[of E "fst (executeStep E step s)" "snd (executeStep E step s)"]
  by (auto intro: runs_trans)

lemma perform_runs: "c \<noteq> Close \<Longrightarrow> runs E s (snd (perform E c s))"
  unfolding perform_def by (rule await_ok) (simp add: well_started_def runs_refl)

lemma working_refl: "working s s"
  by (simp add: working_def)

lemma working_trans: "working s1 s2 \<Longrightarrow> working s2 s3 \<Longrightarrow> working s1 s3"
proof -
  assume a: "working s1 s2" and b: "working s2 s3"
  from a obtain x where x: "trace s2 = trace s1 @ x" "Close \<notin> set (calls_of x)"
      "logs s2 = logs s1 @ logs_of x"
      "tokenUsage s2 = foldl (\<lambda>t u. track u t) (tokenUsage s1) (usages (completions x))"
    by (auto simp: working_def)
  from b obtain y where y: "trace s3 = trace s2 @ y" "Close \<notin> set (calls_of y)"
      "logs s3 = logs s2 @ logs_of y"
      "tokenUsage s3 = foldl (\<lambda>t u. track u t) (tokenUsage s2) (usages (completions y))"
    by (auto simp: working_def)
  have "trace s3 = trace s1 @ (x @ y) \<and> Close \<notin> set (calls_of (x @ y)) \<and>
        logs s3 = logs s1 @ logs_of (x @ y) \<and>
        tokenUsage s3 = foldl (\<lambda>t u. track u t) (tokenUsage s1) (usages (completions (x @ y)))"
    by (simp add: x y)
  then have "\<exists>ext. trace s3 = trace s1 @ ext \<and> Close \<notin> set (calls_of ext) \<and>
        logs s3 = logs s1 @ logs_of ext \<and>
        tokenUsage s3 = foldl (\<lambda>t u. track u t) (tokenUsage s1) (usages (completions ext))"
    by blast
  with a b show ?thesis by (simp add: working_def)
qed

lemma runs_working: "runs E s s' \<Longrightarrow> working s s'"
  using runs_fields[of E s s'] runs_trace[of E s s'] by (auto simp: working_def)

lemma working_emit: "working s (emit (ExecutionProgress x i n d) s)"
  by (simp add: working_def)

lemma working_handle: "working s (s\<lparr>stagehand := True\<rparr>)"
  by (simp add: working_def)

lemma working_startTime: "working s (s\<lparr>startTime := t\<rparr>)"
  by (simp add: working_def)

lemma working_addLog: "working s (addLog E l c m s)"
  by (rule runs_working[OF runs_addLog1])

lemma working_perform: "c \<noteq> Close \<Longrightarrow> working s (snd (perform E c s))"
  by (rule runs_working[OF perform_runs])

lemma working_then_addLog: "working s s' \<Longrightarrow> working s (addLog E l c m s')"
  by (rule working_trans[OF _ working_addLog])

lemma working_then_perform: "working s s' \<Longrightarrow> c \<noteq> Close \<Longrightarrow> working s (snd (perform E c s'))"
  by (rule working_trans[OF _ working_perform])

lemma initStagehand_cases:
  fixes E workflow s
  defines "s2 \<equiv> (addLog E ''info'' ''initialization'' ''Initializing browser automation...'' s)\<lparr>stagehand := True\<rparr>"
  obtains
    (init_fails) e s3 where
      "perform E (Init (headless (config_of workflow))) s2 = (Inl e, s3)"
      "initStagehand E workflow s = init_failed E e s3"
  | (viewport_fails) v1 s3 e s4 where
      "perform E (Init (headless (config_of workflow))) s2 = (Inr v1, s3)"
      "apply_viewport E (config_of workflow) s3 = (Inl e, s4)"
      "initStagehand E workflow s = init_failed E e s4"
  | (userAgent_fails) v1 s3 v2 s4 e s5 where
      "perform E (Init (headless (config_of workflow))) s2 = (Inr v1, s3)"
      "apply_viewport E (config_of workflow) s3 = (Inr v2, s4)"
      "apply_userAgent E (config_of workflow) s4 = (Inl e, s5)"
      "initStagehand E workflow s = init_failed E e s5"
  | (initialized) v1 s3 v2 s4 v3 s5 where
      "perform E (Init (headless (config_of workflow))) s2 = (Inr v1, s3)"
      "apply_viewport E (config_of workflow) s3 = (Inr v2, s4)"
      "apply_userAgent E (config_of workflow) s4 = (Inr v3, s5)"
      "initStagehand E workflow s =
         (Inr (), addLog E ''success'' ''initialization'' ''Browser automation initialized successfully'' s5)"
proof (cases "perform E (Init (headless (config_of workflow))) s2")
  case p1: (Pair r1 s3)
  show ?thesis
  proof (cases r1)
    case (Inl e)
    have "initStagehand E workflow s = init_failed E e s3"
      using p1[unfolded s2_def] Inl by (simp add: initStagehand_def Let_def)
    with p1 Inl init_fails show ?thesis by blast
  next
    case r1: (Inr v1)
    show ?thesis
    proof (cases "apply_viewport E (config_of workflow) s3")
      case p2: (Pair r2 s4)
      show ?thesis
      proof (cases r2)
        case (Inl e)
        have "initStagehand E workflow s = init_failed E e s4"
          using p1[unfolded s2_def] r1 p2 Inl by (simp add: initStagehand_def Let_def)
        with p1 r1 p2 Inl viewport_fails show ?thesis by blast
      next
        case r2: (Inr v2)
        show ?thesis
        proof (cases "apply_userAgent E (config_of workflow) s4")
          case p3: (Pair r3 s5)
          show ?thesis
          proof (cases r3)
            case (Inl e)
            have "initStagehand E workflow s = init_failed E e s5"
              using p1[unfolded s2_def] r1 p2 r2 p3 Inl by (simp add: initStagehand_def Let_def)
            with p1 r1 p2 r2 p3 Inl userAgent_fails show ?thesis by blast
          next
            case r3: (Inr v3)
            have "initStagehand E workflow s =
                    (Inr (), addLog E ''success'' ''initialization'' ''Browser automation initialized successfully'' s5)"
              using p1[unfolded s2_def] r1 p2 r2 p3 r3 by (simp add: initStagehand_def Let_def)
            with p1 r1 p2 r2 p3 r3 initialized show ?thesis by blast
          qed
        qed
      qed
    qed
  qed
qed

lemma working_init_failed: "working s s' \<Longrightarrow> working s (snd (init_failed E e s'))"
  by (simp add: init_failed_def working_then_addLog)

lemma working_apply_viewport: "working s s' \<Longrightarrow> working s (snd (apply_viewport E c s'))"
  by (auto simp: apply_viewport_def split: option.splits intro: working_then_perform)

lemma working_apply_userAgent: "working s s' \<Longrightarrow> working s (snd (apply_userAgent E c s'))"
  by (auto simp: apply_userAgent_def split: option.splits intro: working_then_perform)

lemma working_stagehand: "working s s' \<Longrightarrow> stagehand s \<Longrightarrow> stagehand s'"
  by (simp add: working_def)

lemma initStagehand_working:
  "working s (snd (initStagehand E workflow s)) \<and> stagehand (snd (initStagehand E workflow s))"
proof -
  define s2 where "s2 = (addLog E ''info'' ''initialization'' ''Initializing browser automation...'' s)\<lparr>stagehand := True\<rparr>"
  have w2: "working s s2"
    unfolding s2_def by (rule working_trans[OF working_addLog working_handle])
  have h2: "stagehand s2" by (simp add: s2_def)
  have p1: "working s2 (snd (perform E (Init (headless (config_of workflow))) s2))"
    by (rule working_perform) simp
  have *: "working s2 s' \<Longrightarrow> working s s' \<and> stagehand s'" for s'
    using w2 h2 by (blast intro: working_trans working_stagehand)
  show ?thesis
  proof (cases rule: initStagehand_cases[of E workflow s])
    case (init_fails e s3)
    have "working s2 (snd (init_failed E e s3))"
      using p1 init_fails(1)[folded s2_def] by (simp add: working_init_failed)
    from *[OF this] show ?thesis using init_fails(2) by simp
  next
    case (viewport_fails v1 s3 e s4)
    have "working s2 s3" using p1 viewport_fails(1)[folded s2_def] by simp
    then have "working s2 (snd (apply_viewport E (config_of workflow) s3))"
      by (rule working_apply_viewport)
    then have "working s2 (snd (init_failed E e s4))"
      using viewport_fails(2) by (simp add: working_init_failed)
    from *[OF this] show ?thesis using viewport_fails(3) by simp
  next
    case (userAgent_fails v1 s3 v2 s4 e s5)
    have "working s2 s3" using p1 userAgent_fails(1)[folded s2_def] by simp
    then have "working s2 (snd (apply_viewport E (config_of workflow) s3))"
      by (rule working_apply_viewport)
    then have "working s2 s4" using userAgent_fails(2) by simp
    then have "working s2 (snd (apply_userAgent E (config_of workflow) s4))"
      by (rule working_apply_userAgent)
    then have "working s2 (snd (init_failed E e s5))"
      using userAgent_fails(3) by (simp add: working_init_failed)
    from *[OF this] show ?thesis using userAgent_fails(4) by simp
  next
    case (initialized v1 s3 v2 s4 v3 s5)
    have "working s2 s3" using p1 initialized(1)[folded s2_def] by simp
    then have "working s2 (snd (apply_viewport E (config_of workflow) s3))"
      by (rule working_apply_viewport)
    then have "working s2 s4" using initialized(2) by simp
    then have "working s2 (snd (apply_userAgent E (config_of workflow) s4))"
      by (rule working_apply_userAgent)
    then have "working s2 s5" using initialized(3) by simp
    then have "working s2 (addLog E ''success'' ''initialization'' ''Browser automation initialized successfully'' s5)"
      by (rule working_then_addLog)
    from *[OF this] show ?thesis using initialized(4) by simp
  qed
qed

lemma working_step: "working s (snd (await E (executeStep E step s)))"
  by (rule runs_working[OF await_executeStep_runs])

lemma run_sequential_Cons:
  "run_sequential E n i (step # rest) acc s =
     (case await E (executeStep E step (emit (ExecutionProgress (executionId s) i n (description step)) s)) of
        (Inl e, s2) \<Rightarrow> (Inl e, s2)
      | (Inr v, s2) \<Rightarrow> run_sequential E n (Suc i) rest (if truthy v then acc @ [entry step v] else acc) s2)"
  by (simp only: run_sequential.simps Let_def split: prod.split sum.split)


declare run_sequential.simps(2) [simp del]

lemma run_sequential_working: "working s (snd (run_sequential E n i sts acc s))"
proof (induction sts arbitrary: i acc s)
  case Nil
  show ?case by (simp add: working_refl)
next
  case (Cons step rest)
  define s1 where "s1 = emit (ExecutionProgress (executionId s) i n (description step)) s"
  obtain r s2 where p: "await E (executeStep E step s1) = (r, s2)" by (cases "await E (executeStep E step s1)")
  have "working s s1" unfolding s1_def by (rule working_emit)
  moreover have "working s1 s2" using working_step[of s1 E step] p by simp
  ultimately have w: "working s s2" by (rule working_trans)
  show ?case
  proof (cases r)
    case (Inl e)
    then show ?thesis using w p by (simp add: run_sequential_Cons s1_def[symmetric])
  next
    case (Inr v)
    have "working s2 (snd (run_sequential E n (Suc i) rest
               (if truthy v then acc @ [entry step v] else acc) s2))"
      by (rule Cons.IH)
    with w have "working s (snd (run_sequential E n (Suc i) rest
               (if truthy v then acc @ [entry step v] else acc) s2))"
      by (rule working_trans)
    then show ?thesis using Inr p by (simp add: run_sequential_Cons s1_def[symmetric])
  qed
qed

lemma start_all_ok:
  "runs E s (snd (start_all E sts s)) \<and> (\<forall>p \<in> set (fst (start_all E sts s)). well_inflight E p)
     \<and> length (fst (start_all E sts s)) = length sts"
proof (induction sts arbitrary: s)
  case Nil
  show ?case by (simp add: runs_refl)
next
  case (Cons step rest)
  define q where "q = executeStep E step s"
  define r where "r = issue E (fst q) (snd q)"
  have q: "well_started E (fst q)" "runs E s (snd q)"
    using executeStep_ok[of E step s] by (simp_all add: q_def)
  have r: "well_inflight E (fst r)" "runs E (snd q) (snd r)"
    using issue_ok[OF q(1), of "snd q"] by (simp_all add: r_def)
  have "runs E s (snd r)" using q(2) r(2) by (rule runs_trans[rotated])
  with Cons.IH[of "snd r"] r(1) show ?case
    by (auto simp: q_def[symmetric] r_def[symmetric] split_beta intro: runs_trans)
qed

lemma settling_order_bound: "i \<in> set (settling_order sched n) \<Longrightarrow> i < n"
  by (auto simp: settling_order_def)

lemma foldl_settle_runs:
  "(\<forall>i \<in> set is. i < length ps) \<Longrightarrow> (\<forall>p \<in> set ps. well_inflight E p) \<Longrightarrow>
     runs E s (foldl (\<lambda>s' i. settle E (ps ! i) s') s is)"
proof (induction "is" arbitrary: s)
  case Nil
  show ?case by (simp add: runs_refl)
next
  case (Cons i "is")
  have "runs E s (settle E (ps ! i) s)"
    using Cons.prems by (intro settle_ok) simp
  moreover have "runs E (settle E (ps ! i) s) (foldl (\<lambda>s' i. settle E (ps ! i) s') (settle E (ps ! i) s) is)"
    using Cons.prems by (intro Cons.IH) simp_all
  ultimately show ?case by (simp add: runs_trans)
qed

lemma settle_all_runs: "(\<forall>p \<in> set ps. well_inflight E p) \<Longrightarrow> runs E s (settle_all E sched ps s)"
  unfolding settle_all_def by (rule foldl_settle_runs) (auto dest: settling_order_bound)

lemma collect_runs: "runs E s (snd (collect E i xs acc s))"
proof (induction xs arbitrary: i acc s)
  case Nil
  show ?case by (simp add: runs_refl)
next
  case (Cons x xs)
  obtain step r where x: "x = (step, r)" by (cases x)
  show ?case
  proof (cases r)
    case (Inl e)
    show ?thesis
      unfolding x Inl collect.simps sum.case
      by (rule runs_trans[OF Cons.IH runs_addLog1])
  next
    case (Inr v)
    show ?thesis
      unfolding x Inr collect.simps sum.case by (rule Cons.IH)
  qed
qed

lemma run_parallel_runs: "runs E s (snd (run_parallel E sched sts s))"
proof -
  define s1 where "s1 = addLog E ''info'' ''execution'' ''Executing steps in parallel'' s"
  define q where "q = start_all E sts s1"
  define s3 where "s3 = settle_all E sched (fst q) (snd q)"
  have a: "runs E s s1" by (simp add: s1_def runs_addLog1)
  have b: "runs E s1 (snd q)" "\<forall>p \<in> set (fst q). well_inflight E p"
    using start_all_ok[of E s1 sts] by (simp_all add: q_def)
  have c: "runs E (snd q) s3" unfolding s3_def by (rule settle_all_runs[OF b(2)])
  have d: "runs E s3 (snd (collect E 0 (zip sts (map fst (fst q))) [] s3))" by (rule collect_runs)
  have "runs E s (snd (collect E 0 (zip sts (map fst (fst q))) [] s3))"
    using a b(1) c d by (blast intro: runs_trans)
  then show ?thesis
    by (simp add: run_parallel_def Let_def split_beta s1_def[symmetric] q_def[symmetric] s3_def[symmetric])
qed

lemma callbacks_trace:
  "\<exists>ext. trace (callbacks E ls s) = trace s @ ext \<and> calls_of ext = [] \<and> progress_of ext = [] \<and>
         completions ext = ls \<and> logs (callbacks E ls s) = logs s @ logs_of ext \<and>
         tokenUsage (callbacks E ls s) = foldl (\<lambda>t u. track u t) (tokenUsage s) (usages ls) \<and>
         executionId (callbacks E ls s) = executionId s \<and> stagehand (callbacks E ls s) = stagehand s \<and>
         startTime (callbacks E ls s) = startTime s"
proof (induction ls arbitrary: s)
  case Nil
  show ?case by (simp add: callbacks_def)
next
  case (Cons r ls)
  obtain x where x: "trace (llmClient E r s) = trace s @ x" "calls_of x = []" "progress_of x = []"
         "completions x = [r]" "logs (llmClient E r s) = logs s @ logs_of x"
         "tokenUsage (llmClient E r s) = foldl (\<lambda>t u. track u t) (tokenUsage s) (usages [r])"
    using llmClient_trace[of E r s] by blast
  obtain y where y: "trace (callbacks E ls (llmClient E r s)) = trace (llmClient E r s) @ y"
      "calls_of y = []" "progress_of y = []" "completions y = ls"
      "logs (callbacks E ls (llmClient E r s)) = logs (llmClient E r s) @ logs_of y"
      "tokenUsage (callbacks E ls (llmClient E r s)) =
         foldl (\<lambda>t u. track u t) (tokenUsage (llmClient E r s)) (usages ls)"
      "executionId (callbacks E ls (llmClient E r s)) = executionId (llmClient E r s)"
      "stagehand (callbacks E ls (llmClient E r s)) = stagehand (llmClient E r s)"
      "startTime (callbacks E ls (llmClient E r s)) = startTime (llmClient E r s)"
    using Cons.IH[of "llmClient E r s"] by blast
  have c: "callbacks E (r # ls) s = callbacks E ls (llmClient E r s)"
    by (simp add: callbacks_def)
  have u: "usages (r # ls) = usages [r] @ usages ls"
    using usages_append[of "[r]" ls] by simp
  show ?case
    unfolding c
    by (rule exI[of _ "x @ y"]) (simp add: x y u del: usages.simps)
qed

lemma perform_eq:
  "perform E c s =
     (fst (respond E (trace s) c),
      callbacks E (snd (respond E (trace s) c)) (s\<lparr>trace := trace s @ [Called c]\<rparr>))"
  by (simp add: perform_def await_def issue_def settle_def split_beta Let_def)

lemma catch_block_runs: "runs E s (snd (catch_block E e s))"
  by (simp add: catch_block_def Let_def runs_addLog1)

lemma catch_block_fst: "fst (fst (catch_block E e s)) = JNull"
  by (simp add: catch_block_def Let_def)

lemma cleanup_fst: "fst (cleanup E s) = Inr ()"
  by (simp add: cleanup_def Let_def split_beta split: sum.splits)


lemma cleanup_trace:
  assumes "stagehand s"
  shows "\<exists>a b. trace (snd (cleanup E s)) = trace s @ a @ [Called Close] @ b \<and>
           calls_of a = [] \<and> calls_of b = [] \<and>
           logs (snd (cleanup E s)) = logs s @ logs_of (a @ b) \<and>
           tokenUsage (snd (cleanup E s)) =
             foldl (\<lambda>t u. track u t) (tokenUsage s) (usages (completions (a @ b))) \<and>
           executionId (snd (cleanup E s)) = executionId s \<and>
           (stagehand (snd (cleanup E s)) \<longleftrightarrow> isl (fst (respond E (trace s @ a) Close)))"
proof -
  define s1 where "s1 = addLog E ''info'' ''cleanup'' ''Closing browser instance'' s"
  define a where "a = [Emitted (ExecutionLog (executionId s)
                  \<lparr>timestamp = clock E (trace s), level = ''info'', category = ''cleanup'',
                   message = ''Closing browser instance''\<rparr>), PersistLogs]"
  define s2 where "s2 = callbacks E (snd (respond E (trace s1) Close)) (s1\<lparr>trace := trace s1 @ [Called Close]\<rparr>)"
  have t1: "trace s1 = trace s @ a" "logs s1 = logs s @ logs_of a" "tokenUsage s1 = tokenUsage s"
      "executionId s1 = executionId s"
    by (simp_all add: s1_def a_def)
  obtain y where y: "trace s2 = trace s1 @ [Called Close] @ y" "calls_of y = []"
      "logs s2 = logs s1 @ logs_of y"
      "tokenUsage s2 = foldl (\<lambda>t u. track u t) (tokenUsage s1) (usages (completions y))"
      "executionId s2 = executionId s1" "stagehand s2 = stagehand s1"
    using callbacks_trace[of E "snd (respond E (trace s1) Close)" "s1\<lparr>trace := trace s1 @ [Called Close]\<rparr>"]
    by (auto simp: s2_def)
  have p: "perform E Close s1 = (fst (respond E (trace s1) Close), s2)"
    by (simp add: perform_eq s2_def)
  show ?thesis
  proof (cases "fst (respond E (trace s1) Close)")
    case (Inl e)
    define z where "z = [Emitted (ExecutionLog (executionId s2)
                  \<lparr>timestamp = clock E (trace s2), level = ''warning'', category = ''cleanup'',
                   message = ''Browser cleanup warning: '' @ error_message e\<rparr>), PersistLogs]"
    have c: "snd (cleanup E s) = addLog E ''warning'' ''cleanup'' (''Browser cleanup warning: '' @ error_message e) s2"
      using assms p Inl by (simp add: cleanup_def Let_def s1_def[symmetric])
    have "completions a = []" "calls_of a = []" "completions z = []" "calls_of z = []"
      by (simp_all add: a_def z_def)
    moreover have "stagehand s2" using y(6) assms by (simp add: s1_def)
    ultimately show ?thesis
      unfolding c using Inl
      by (intro exI[of _ a] exI[of _ "y @ z"]) (simp add: t1 y z_def)
  next
    case (Inr v)
    define z where "z = [Emitted (ExecutionLog (executionId s2)
                  \<lparr>timestamp = clock E (trace s2), level = ''success'', category = ''cleanup'',
                   message = ''Browser closed successfully''\<rparr>), PersistLogs]"
    have c: "snd (cleanup E s) = addLog E ''success'' ''cleanup'' ''Browser closed successfully'' (s2\<lparr>stagehand := False\<rparr>)"
      using assms p Inr by (simp add: cleanup_def Let_def s1_def[symmetric])
    have "completions a = []" "calls_of a = []" "completions z = []" "calls_of z = []"
      by (simp_all add: a_def z_def)
    then show ?thesis
      unfolding c using Inr
      by (intro exI[of _ a] exI[of _ "y @ z"]) (simp add: t1 y z_def)
  qed
qed


lemma run_parallel_working: "working s (snd (run_parallel E sched sts s))"
  by (rule runs_working[OF run_parallel_runs])

lemma run_steps_working: "working s (snd (run_steps E sched workflow s))"
  by (auto simp: run_steps_def split_beta
           intro: run_sequential_working run_parallel_working working_refl)

lemma completed_working: "working s (snd (completed E n rs s))"
  unfolding completed_def Let_def snd_conv
  by (rule working_trans[OF working_emit working_addLog])

lemma try_block_working:
  "working s (snd (try_block E sched workflow s)) \<and> stagehand (snd (try_block E sched workflow s))"
proof -
  obtain r0 s1 where i: "initStagehand E workflow s = (r0, s1)" by (cases "initStagehand E workflow s")
  have w1: "working s s1" "stagehand s1" using initStagehand_working[of s E workflow] i by simp_all
  show ?thesis
  proof (cases r0)
    case (Inl e)
    then show ?thesis using i w1 by (simp add: try_block_def)
  next
    case (Inr u)
    obtain r s2 where m: "run_steps E sched workflow s1 = (r, s2)"
      by (cases "run_steps E sched workflow s1")
    have "working s1 s2" using run_steps_working[of s1 E sched workflow] m by simp
    then have w2: "working s s2" "stagehand s2"
      using w1 by (blast intro: working_trans working_stagehand)+
    show ?thesis
    proof (cases r)
      case (Inl e)
      then show ?thesis using i Inr m w2 by (simp add: try_block_def)
    next
      case rs: (Inr res)
      obtain x s4 where c: "completed E (length (steps workflow)) res s2 = (x, s4)"
        by (cases "completed E (length (steps workflow)) res s2")
      have "working s2 s4" using completed_working[of s2 E "length (steps workflow)" res] c by simp
      then have "working s s4" "stagehand s4"
        using w2 by (blast intro: working_trans working_stagehand)+
      then show ?thesis using i Inr m rs c by (simp add: try_block_def)
    qed
  qed
qed

lemma working_begun: "working s (begun E workflow s)"
  unfolding begun_def by (rule working_trans[OF working_startTime working_addLog])

lemma execute_eq:
  "execute E sched workflow s =
     (case try_block E sched workflow (begun E workflow s) of
        (r, s3) \<Rightarrow>
          (case (case r of Inr x \<Rightarrow> (x, s3) | Inl e \<Rightarrow> catch_block E e s3) of
             ((res, d), s4) \<Rightarrow>
               (Inr \<lparr>results = res, result_logs = logs (snd (cleanup E s4)), duration = d,
                     result_tokenUsage = tokenUsage (snd (cleanup E s4))\<rparr>,
                snd (cleanup E s4))))"
proof -
  have "fst (cleanup E s4) = Inr ()" for s4 by (rule cleanup_fst)
  then have c: "cleanup E s4 = (Inr (), snd (cleanup E s4))" for s4
    by (metis prod.collapse)
  show ?thesis
    unfolding execute_def begun_def Let_def
    by (subst c) (simp add: split_beta)
qed

lemma execute_run:
  obtains res d s4 pre a post where
    "execute E sched workflow s =
       (Inr \<lparr>results = res, result_logs = logs (snd (cleanup E s4)), duration = d,
             result_tokenUsage = tokenUsage (snd (cleanup E s4))\<rparr>, snd (cleanup E s4))"
    "(case fst (try_block E sched workflow (begun E workflow s)) of
        Inr x \<Rightarrow> res = fst x | Inl e \<Rightarrow> res = JNull)"
    "stagehand s4"
    "trace s4 = trace s @ pre" "Close \<notin> set (calls_of pre)"
    "trace (snd (cleanup E s4)) = trace s @ pre @ a @ [Called Close] @ post"
    "calls_of a = []" "calls_of post = []"
    "logs (snd (cleanup E s4)) = logs s @ logs_of (pre @ a @ post)"
    "tokenUsage (snd (cleanup E s4)) =
       foldl (\<lambda>t u. track u t) (tokenUsage s) (usages (completions (pre @ a @ post)))"
    "executionId (snd (cleanup E s4)) = executionId s"
    "stagehand (snd (cleanup E s4)) \<longleftrightarrow> isl (fst (respond E (trace s @ pre @ a) Close))"
proof -
  obtain r s3 where t: "try_block E sched workflow (begun E workflow s) = (r, s3)"
    by (cases "try_block E sched workflow (begun E workflow s)")
  have w3: "working s s3" "stagehand s3"
    using try_block_working[of "begun E workflow s" E sched workflow] t working_begun[of s E workflow]
    by (auto intro: working_trans)
  define q where "q = (case r of Inr x \<Rightarrow> (x, s3) | Inl e \<Rightarrow> catch_block E e s3)"
  obtain res d s4 where q: "q = ((res, d), s4)" by (cases q) auto
  have "working s3 s4"
  proof (cases r)
    case (Inl e)
    have "working s3 (snd (catch_block E e s3))" by (rule runs_working[OF catch_block_runs])
    then show ?thesis using q Inl by (simp add: q_def)
  next
    case (Inr x)
    then show ?thesis using q by (simp add: q_def working_refl)
  qed
  with w3 have w4: "working s s4" "stagehand s4"
    by (blast intro: working_trans working_stagehand)+
  then obtain pre where pre: "trace s4 = trace s @ pre" "Close \<notin> set (calls_of pre)"
      "logs s4 = logs s @ logs_of pre"
      "tokenUsage s4 = foldl (\<lambda>t u. track u t) (tokenUsage s) (usages (completions pre))"
      "executionId s4 = executionId s"
    by (auto simp: working_def)
  obtain a b where ab: "trace (snd (cleanup E s4)) = trace s4 @ a @ [Called Close] @ b"
           "calls_of a = []" "calls_of b = []"
           "logs (snd (cleanup E s4)) = logs s4 @ logs_of (a @ b)"
           "tokenUsage (snd (cleanup E s4)) =
             foldl (\<lambda>t u. track u t) (tokenUsage s4) (usages (completions (a @ b)))"
           "executionId (snd (cleanup E s4)) = executionId s4"
           "stagehand (snd (cleanup E s4)) \<longleftrightarrow> isl (fst (respond E (trace s4 @ a) Close))"
    using cleanup_trace[OF w4(2), of E] by blast
  have e: "execute E sched workflow s =
       (Inr \<lparr>results = res, result_logs = logs (snd (cleanup E s4)), duration = d,
             result_tokenUsage = tokenUsage (snd (cleanup E s4))\<rparr>, snd (cleanup E s4))"
    using t q by (simp add: execute_eq q_def[symmetric])
  have r: "(case fst (try_block E sched workflow (begun E workflow s)) of
        Inr x \<Rightarrow> res = fst x | Inl e \<Rightarrow> res = JNull)"
  proof (cases r)
    case (Inl e)
    have "fst (fst (catch_block E e s3)) = JNull" by (rule catch_block_fst)
    then show ?thesis using t q Inl by (simp add: q_def)
  next
    case (Inr x)
    then show ?thesis using t q by (simp add: q_def)
  qed
  show ?thesis
  proof (rule that)
    show "execute E sched workflow s =
       (Inr \<lparr>results = res, result_logs = logs (snd (cleanup E s4)), duration = d,
             result_tokenUsage = tokenUsage (snd (cleanup E s4))\<rparr>, snd (cleanup E s4))"
      by (rule e)
    show "case fst (try_block E sched workflow (begun E workflow s)) of
        Inr x \<Rightarrow> res = fst x | Inl e \<Rightarrow> res = JNull"
      by (rule r)
    show "stagehand s4" by (rule w4)
    show "trace s4 = trace s @ pre" by (rule pre)
    show "Close \<notin> set (calls_of pre)" by (rule pre)
    show "trace (snd (cleanup E s4)) = trace s @ pre @ a @ [Called Close] @ b"
      by (simp add: ab pre)
    show "calls_of a = []" by (rule ab)
    show "calls_of b = []" by (rule ab)
    show "logs (snd (cleanup E s4)) = logs s @ logs_of (pre @ a @ b)"
      by (simp add: ab pre)
    show "tokenUsage (snd (cleanup E s4)) =
       foldl (\<lambda>t u. track u t) (tokenUsage s) (usages (completions (pre @ a @ b)))"
      by (simp add: ab pre)
    show "executionId (snd (cleanup E s4)) = executionId s"
      by (simp add: ab pre)
    show "stagehand (snd (cleanup E s4)) \<longleftrightarrow> isl (fst (respond E (trace s @ pre @ a) Close))"
      using ab(7) by (simp add: pre)
  qed
qed

section \<open>Token accounting\<close>













section \<open>The run as a whole, and the route\<close>

lemma execute_returns: "\<exists>r. fst (execute E sched workflow s) = Inr r"
  by (rule execute_run[of E sched workflow s]) simp

lemma execute_results_null:
  "fst (execute E sched workflow s) = Inr r \<Longrightarrow>
     (results r = JNull) = (case fst (try_block E sched workflow (begun E workflow s)) of
                             Inl e \<Rightarrow> True | Inr x \<Rightarrow> fst x = JNull)"
  by (rule execute_run[of E sched workflow s]) (auto split: sum.splits)

lemma updateExecution_found:
  "executions st eid = Some x \<Longrightarrow>
     executions (snd (updateExecution st eid u now)) eid = Some (spread x u)"
  by (simp add: updateExecution_def Let_def)

lemma createExecution_found:
  "executions (snd (createExecution st ins eid now)) eid = Some (ins\<lparr>execution_id := eid\<rparr>) \<and>
   execution_id (fst (createExecution st ins eid now)) = eid"
  by (simp add: createExecution_def Let_def)


lemma execute_route_none: "getWorkflow st wid = None \<Longrightarrow> execute_route E sched st wid eid = None"
  by (simp add: execute_route_def)

lemma execute_route_some:
  assumes wf: "getWorkflow st wid = Some workflow"
    and ex: "execute E sched workflow (new_executor eid [Emitted (ExecutionStarted eid (workflow_id workflow))]) = (Inr r, s)"
  defines "q \<equiv> \<lparr>execution_id = eid, workflowId = workflow_id workflow, status = Queued,
                    exec_logs = [], exec_results = Some JNull, exec_error = None,
                    exec_tokenUsage = None, startedAt = Some (clock E []), completedAt = None,
                    exec_duration = None\<rparr>"
  shows "\<exists>run. execute_route E sched st wid eid = Some run \<and> returned run = Inr r \<and>
           observed run = trace s @
             [Emitted (if results r = JNull then ExecutionFailed eid ''Workflow execution failed''
                       else ExecutionCompleted eid (results r) (duration r))] \<and>
           executions (after_create run) eid = Some q \<and>
           executions (after_start run) eid = Some (q\<lparr>status := Running\<rparr>) \<and>
           executions (after_finish run) eid =
             Some (q\<lparr>status := (if results r = JNull then Failed else Completed),
                     exec_logs := result_logs r,
                     exec_results := Some (results r),
                     exec_error := (if results r = JNull
                                    then Some ''Workflow execution failed. Check logs for details.'' else None),
                     exec_tokenUsage := Some (result_tokenUsage r),
                     completedAt := Some (clock E (trace s)),
                     exec_duration := Some (duration r)\<rparr>)"
  using wf ex
  by (simp add: execute_route_def createExecution_def updateExecution_def Let_def spread_def
        no_update_def q_def)

text \<open>
  C1. execute never raises: for every workflow, environment and starting state it
  returns a record. The execute route answers 404 exactly when the workflow is
  unknown; otherwise its last write marks the execution Failed when the returned
  results value is null, and Completed for every other value.
\<close>

theorem C1_execute_always_returns:
  "(\<exists>r. fst (execute E sched workflow s) = Inr r) \<and>
   (case execute_route E sched st wid eid of
      None \<Rightarrow> getWorkflow st wid = None
    | Some run \<Rightarrow>
        (\<exists>r x. returned run = Inr r \<and> getExecution (after_finish run) eid = Some x \<and>
               status x = (if results r = JNull then Failed else Completed)))"
proof
  show "\<exists>r. fst (execute E sched workflow s) = Inr r" by (rule execute_returns)
next
  show "case execute_route E sched st wid eid of
      None \<Rightarrow> getWorkflow st wid = None
    | Some run \<Rightarrow>
        (\<exists>r x. returned run = Inr r \<and> getExecution (after_finish run) eid = Some x \<and>
               status x = (if results r = JNull then Failed else Completed))"
  proof (cases "getWorkflow st wid")
    case None
    then show ?thesis by (simp add: execute_route_none)
  next
    case (Some w)
    obtain r where r: "fst (execute E sched w (new_executor eid [Emitted (ExecutionStarted eid (workflow_id w))])) = Inr r"
      using execute_returns by blast
    then have "execute E sched w (new_executor eid [Emitted (ExecutionStarted eid (workflow_id w))])
                 = (Inr r, snd (execute E sched w (new_executor eid [Emitted (ExecutionStarted eid (workflow_id w))])))"
      by (metis prod.collapse)
    from execute_route_some[OF Some this] show ?thesis
      by (auto simp: getExecution_def)
  qed
qed

theorem C1_execute_always_returns_witness:
  "case execute_route sample_environment [] (store_with (sample_workflow ''sequential'' [])) ''wf-1'' ''e1'' of
      None \<Rightarrow> False
    | Some run \<Rightarrow>
        (\<exists>r x. returned run = Inr r \<and> results r = JArr [] \<and>
               getExecution (after_finish run) ''e1'' = Some x \<and> status x = Completed)"
proof -
  have a: "case execute_route sample_environment [] (store_with (sample_workflow ''sequential'' [])) ''wf-1'' ''e1'' of
      None \<Rightarrow> False
    | Some run \<Rightarrow> (case returned run of Inr r \<Rightarrow> results r = JArr [] | Inl e \<Rightarrow> False)"
    by code_simp
  show ?thesis
    using a C1_execute_always_returns[of sample_environment "[]" "sample_workflow ''sequential'' []"
        "new_executor ''e1'' []" "store_with (sample_workflow ''sequential'' [])" "''wf-1''" "''e1''"]
    by (auto split: option.splits sum.splits)
qed









section \<open>The Gateway client\<close>

lemma posts_append [simp]: "posts (a @ b) = posts a + posts b"
  by (induction a rule: posts.induct) simp_all

lemma fetches_append [simp]: "fetches (a @ b) = fetches a + fetches b"
  by (induction a rule: fetches.induct) simp_all





















section \<open>One step\<close>

lemma quiet_runs: "quiet E s s' \<Longrightarrow> runs E s s'"
  by (induction rule: quiet.induct) (auto intro: runs.intros)

lemma quiet_trans: "quiet E s2 s3 \<Longrightarrow> quiet E s1 s2 \<Longrightarrow> quiet E s1 s3"
  by (induction rule: quiet.induct) (auto intro: quiet.intros)

lemma quiet_callbacks: "quiet E s s' \<Longrightarrow> quiet E s (callbacks E ls s')"
  by (induction ls arbitrary: s') (auto simp: callbacks_def intro: quiet.intros)

lemma step_log_append [simp]: "step_log (a @ b) = step_log a @ step_log b"
  by (induction a) simp_all

lemma step_log_llmClient: "step_log (logs (llmClient E r s)) = step_log (logs s)"
  by (cases r) (simp_all add: llmClient_def Let_def split: option.splits)

lemma quiet_step_log: "quiet E s s' \<Longrightarrow> step_log (logs s') = step_log (logs s)"
  by (induction rule: quiet.induct) (simp_all add: step_log_llmClient)

lemma quiet_addLog1: "c \<noteq> ''step'' \<Longrightarrow> quiet E s (addLog E l c m s)"
  by (intro quiet.intros)

lemma quiet_id: "quiet E s (id s)"
  by (simp add: quiet_refl)

lemma executeNavigate_quiet:
  "quietly_started E (fst (executeNavigate E step s)) \<and> quiet E s (snd (executeNavigate E step s))"
  by (auto simp: executeNavigate_def quietly_started_def Let_def intro: quiet_addLog1 quiet_refl split: sum.splits)

lemma executeAct_quiet:
  "quietly_started E (fst (executeAct E step s)) \<and> quiet E s (snd (executeAct E step s))"
  by (auto simp: executeAct_def quietly_started_def Let_def intro: quiet_addLog1 quiet_refl split: sum.splits)

lemma executeExtract_quiet:
  "quietly_started E (fst (executeExtract E step s)) \<and> quiet E s (snd (executeExtract E step s))"
  by (auto simp: executeExtract_def quietly_started_def Let_def intro: quiet_addLog1 quiet_refl
           split: sum.splits jsval.splits)

lemma executeObserve_quiet:
  "quietly_started E (fst (executeObserve E step s)) \<and> quiet E s (snd (executeObserve E step s))"
  by (auto simp: executeObserve_def quietly_started_def Let_def intro: quiet_addLog1 quiet_refl split: sum.splits)

lemma executeAgent_quiet:
  "quietly_started E (fst (executeAgent E step s)) \<and> quiet E s (snd (executeAgent E step s))"
  by (auto simp: executeAgent_def quietly_started_def Let_def intro: quiet_addLog1 quiet_refl split: sum.splits)

lemma executeWait_quiet:
  "quietly_started E (fst (executeWait E step s)) \<and> quiet E s (snd (executeWait E step s))"
  by (auto simp: executeWait_def quietly_started_def Let_def intro: quiet_addLog1 quiet_refl split: sum.splits)

lemma executeScreenshot_quiet:
  "quietly_started E (fst (executeScreenshot E step s)) \<and> quiet E s (snd (executeScreenshot E step s))"
  by (auto simp: executeScreenshot_def quietly_started_def Let_def intro: quiet_addLog1 quiet_refl split: sum.splits)

lemma executeScroll_quiet:
  "quietly_started E (fst (executeScroll E step s)) \<and> quiet E s (snd (executeScroll E step s))"
  by (auto simp: executeScroll_def quietly_started_def Let_def intro: quiet_addLog1 quiet_refl split: sum.splits)

lemma dispatch_quiet:
  "dispatch E step s = Some (st, s') \<Longrightarrow> quietly_started E st \<and> quiet E s s'"
  using executeNavigate_quiet[of E step s] executeAct_quiet[of E step s] executeExtract_quiet[of E step s]
    executeObserve_quiet[of E step s] executeAgent_quiet[of E step s] executeWait_quiet[of E step s]
    executeScreenshot_quiet[of E step s] executeScroll_quiet[of E step s]
  by (auto simp: dispatch_def split: if_splits)

lemma dispatch_known: "(dispatch E step s = None) = (\<not> known_type (step_type step))"
  by (simp add: dispatch_def known_type_def)

text \<open>What awaiting a started function amounts to, when the function is quietly started.\<close>

lemma await_quiet:
  assumes "quietly_started E st"
  shows "\<exists>s1. quiet E s s1 \<and>
           await E (then_done E step st, s) =
             (fst (step_done E step (fst (await E (st, s)))),
              snd (step_done E step (fst (await E (st, s)))) s1)"
proof (cases st)
  case (Settled r)
  show ?thesis
    by (rule exI[of _ s])
       (simp add: Settled then_done_def await_def issue_def settle_def callbacks_def split_beta quiet_refl)
next
  case (Waiting c k)
  have k: "quiet E s' (snd (k r) s')" for r s'
    using assms by (simp add: quietly_started_def Waiting)
  have nc: "c \<noteq> Some Close" using assms by (simp add: quietly_started_def Waiting)
  show ?thesis
  proof (cases c)
    case None
    show ?thesis
      by (rule exI[of _ "snd (k (Inr JUndefined)) s"])
         (simp add: Waiting None then_done_def await_def issue_def settle_def callbacks_def split_beta k)
  next
    case (Some cl)
    let ?r = "fst (respond E (trace s) cl)" and ?ls = "snd (respond E (trace s) cl)"
    let ?s1 = "snd (k ?r) (callbacks E ?ls (s\<lparr>trace := trace s @ [Called cl]\<rparr>))"
    have "cl \<noteq> Close" using nc Some by simp
    then have "quiet E s (s\<lparr>trace := trace s @ [Called cl]\<rparr>)"
      by (intro quiet.intros)
    then have "quiet E s (callbacks E ?ls (s\<lparr>trace := trace s @ [Called cl]\<rparr>))"
      by (rule quiet_callbacks)
    then have "quiet E s ?s1"
      by (rule quiet_trans[OF k])
    then show ?thesis
      by (intro exI[of _ ?s1])
         (simp add: Waiting Some then_done_def await_def issue_def settle_def split_beta)
  qed
qed


lemma step_done_fst [simp]: "fst (step_done E step r) = r"
  by (cases r) (simp_all add: step_done_def)

lemma step_done_snd:
  "snd (step_done E step r) s =
     addLog E (fst (last (step_entries step r))) ''step'' (snd (last (step_entries step r))) s"
  by (cases r) (simp_all add: step_done_def step_entries_def)

lemma step_shape:
  fixes E :: environment and step :: AutomationStep and s :: executor
  assumes h: "stagehand s"
  defines "s0 \<equiv> addLog E ''info'' ''step''
                    (''Executing step '' @ string_of_int (step_order step + 1) @ '': '' @
                     step_type step @ '' - '' @ description step) s"
  obtains r s1 where
    "await E (executeStep E step s) = (r, snd (step_done E step r) s1)"
    "runs E s0 s1"
    "step_log (logs s1) = step_log (logs s) @ butlast (step_entries step r)"
proof (cases "dispatch E step s0")
  case None
  let ?s1 = "addLog E ''warning'' ''step'' (''Unknown step type: '' @ step_type step) s0"
  have u: "\<not> known_type (step_type step)" using None by (simp add: dispatch_known)
  have e: "executeStep E step s = (Settled (Inr JNull), snd (step_done E step (Inr JNull)) ?s1)"
    using h None unfolding s0_def by (simp add: executeStep_def Let_def step_done_def)
  show ?thesis
  proof (rule that[of "Inr JNull" ?s1])
    show "await E (executeStep E step s) = (Inr JNull, snd (step_done E step (Inr JNull)) ?s1)"
      by (simp add: e await_def issue_def settle_def callbacks_def)
    show "runs E s0 ?s1" by (rule runs_addLog1)
    show "step_log (logs ?s1) = step_log (logs s) @ butlast (step_entries step (Inr JNull))"
      using u by (simp add: s0_def step_entries_def)
  qed
next
  case (Some p)
  obtain st s2 where p: "p = (st, s2)" by (cases p)
  have d: "quietly_started E st" "quiet E s0 s2"
    using dispatch_quiet[OF Some[unfolded p]] by simp_all
  have kn: "known_type (step_type step)"
    using Some dispatch_known[of E step s0] by auto
  obtain s1 where s1: "quiet E s2 s1"
    "await E (then_done E step st, s2) =
             (fst (step_done E step (fst (await E (st, s2)))),
              snd (step_done E step (fst (await E (st, s2)))) s1)"
    using await_quiet[OF d(1), of s2 step] by blast
  have e: "executeStep E step s = (then_done E step st, s2)"
    using h Some p unfolding s0_def by (simp add: executeStep_def Let_def)
  have q: "quiet E s0 s1" using s1(1) d(2) by (rule quiet_trans)
  show ?thesis
  proof (rule that[of "fst (await E (st, s2))" s1])
    show "await E (executeStep E step s) =
        (fst (await E (st, s2)), snd (step_done E step (fst (await E (st, s2)))) s1)"
      using s1(2) by (simp add: e)
    show "runs E s0 s1" by (rule quiet_runs[OF q])
    show "step_log (logs s1) = step_log (logs s) @ butlast (step_entries step (fst (await E (st, s2))))"
      using quiet_step_log[OF q] kn by (simp add: s0_def step_entries_def)
  qed
qed

lemma step_logs:
  assumes "stagehand s" and "await E (executeStep E step s) = (r, s')"
  shows "step_log (logs s') = step_log (logs s) @ step_entries step r"
proof (rule step_shape[OF assms(1), of E step])
  fix r' s1
  assume a: "await E (executeStep E step s) = (r', snd (step_done E step r') s1)"
    and l: "step_log (logs s1) = step_log (logs s) @ butlast (step_entries step r')"
  have r: "r' = r" and s': "s' = snd (step_done E step r) s1"
    using a assms(2) by simp_all
  have ne: "step_entries step r \<noteq> []" by (simp add: step_entries_def)
  have "step_log (logs s') = step_log (logs s1) @ [last (step_entries step r)]"
    by (simp add: s' step_done_snd)
  then show ?thesis
    using l ne by (simp add: r)
qed

section \<open>The sequential loop\<close>

lemma step_block:
  assumes h: "stagehand s" and a: "await E (executeStep E step s) = (r, s')"
  shows "\<exists>b. trace s' = trace s @ b \<and> logs s' = logs s @ logs_of b \<and> block_of (step, r) b \<and>
             stagehand s' \<and> executionId s' = executionId s"
proof -
  have "runs E s s'" using await_executeStep_runs[of E s step] a by simp
  from runs_trace[OF this] runs_fields[OF this]
  obtain b where b: "trace s' = trace s @ b" "Close \<notin> set (calls_of b)" "progress_of b = []"
      "logs s' = logs s @ logs_of b" and f: "executionId s' = executionId s" "stagehand s' = stagehand s"
    by blast
  have "step_log (logs s') = step_log (logs s) @ step_entries step r"
    by (rule step_logs[OF h a])
  then have "step_log (logs_of b) = step_entries step r"
    by (simp add: b(4))
  with b f h show ?thesis by (auto simp: block_of_def)
qed

lemma sequential_outcomes_Cons:
  "sequential_outcomes E n i (step # rest) s =
     (case await E (executeStep E step (emit (ExecutionProgress (executionId s) i n (description step)) s)) of
        (Inl e, s2) \<Rightarrow> [Inl e]
      | (Inr v, s2) \<Rightarrow> Inr v # sequential_outcomes E n (Suc i) rest s2)"
  by (simp only: sequential_outcomes.simps)

declare sequential_outcomes.simps(2) [simp del]

lemma sequential_outcomes_length: "length (sequential_outcomes E n i sts s) \<le> length sts"
proof (induction sts arbitrary: i s)
  case Nil
  show ?case by simp
next
  case (Cons step rest)
  obtain r s2 where p: "await E (executeStep E step (emit (ExecutionProgress (executionId s) i n (description step)) s)) = (r, s2)"
    by (cases "await E (executeStep E step (emit (ExecutionProgress (executionId s) i n (description step)) s))")
  show ?case using Cons.IH[of "Suc i" s2] p by (cases r) (simp_all add: sequential_outcomes_Cons)
qed

text \<open>What the loop returns, in terms of the outcomes of the steps it ran.\<close>

lemma run_sequential_result:
  "fst (run_sequential E n i sts acc s) =
     (case failures (sequential_outcomes E n i sts s) of
        [] \<Rightarrow> Inr (acc @ contributions (zip sts (sequential_outcomes E n i sts s)))
      | e # es \<Rightarrow> Inl e)"
proof (induction sts arbitrary: i acc s)
  case Nil
  show ?case by simp
next
  case (Cons step rest)
  obtain r s2 where p: "await E (executeStep E step (emit (ExecutionProgress (executionId s) i n (description step)) s)) = (r, s2)"
    by (cases "await E (executeStep E step (emit (ExecutionProgress (executionId s) i n (description step)) s))")
  show ?case
  proof (cases r)
    case (Inl e)
    then show ?thesis using p by (simp add: run_sequential_Cons sequential_outcomes_Cons)
  next
    case (Inr v)
    then show ?thesis
      using p Cons.IH[of "Suc i" "if truthy v then acc @ [entry step v] else acc" s2]
      by (simp add: run_sequential_Cons sequential_outcomes_Cons split: list.splits)
  qed
qed

lemma run_sequential_blocks:
  assumes "stagehand s"
  shows "\<exists>bs. list_all2 block_of (zip sts (sequential_outcomes E n i sts s)) bs \<and>
           trace (snd (run_sequential E n i sts acc s)) = trace s @ interleaved (executionId s) n i sts bs \<and>
           logs (snd (run_sequential E n i sts acc s)) = logs s @ concat (map logs_of bs) \<and>
           stagehand (snd (run_sequential E n i sts acc s))"
  using assms
proof (induction sts arbitrary: i acc s)
  case Nil
  show ?case using Nil.prems by simp
next
  case (Cons step rest)
  let ?s1 = "emit (ExecutionProgress (executionId s) i n (description step)) s"
  obtain r s2 where p: "await E (executeStep E step ?s1) = (r, s2)"
    by (cases "await E (executeStep E step ?s1)")
  have h1: "stagehand ?s1" using Cons.prems by simp
  obtain b where b: "trace s2 = trace ?s1 @ b" "logs s2 = logs ?s1 @ logs_of b" "block_of (step, r) b"
      "stagehand s2" "executionId s2 = executionId ?s1"
    using step_block[OF h1 p] by blast
  show ?case
  proof (cases r)
    case (Inl e)
    have "list_all2 block_of (zip (step # rest) (sequential_outcomes E n i (step # rest) s)) [b]"
      using p Inl b(3) by (simp add: sequential_outcomes_Cons)
    moreover have "trace (snd (run_sequential E n i (step # rest) acc s)) =
        trace s @ interleaved (executionId s) n i (step # rest) [b]"
      using p Inl b(1) by (simp add: run_sequential_Cons)
    moreover have "logs (snd (run_sequential E n i (step # rest) acc s)) = logs s @ concat (map logs_of [b])"
      using p Inl b(2) by (simp add: run_sequential_Cons)
    moreover have "stagehand (snd (run_sequential E n i (step # rest) acc s))"
      using p Inl b(4) by (simp add: run_sequential_Cons)
    ultimately show ?thesis by blast
  next
    case (Inr v)
    let ?acc = "if truthy v then acc @ [entry step v] else acc"
    obtain bs where bs: "list_all2 block_of (zip rest (sequential_outcomes E n (Suc i) rest s2)) bs"
        "trace (snd (run_sequential E n (Suc i) rest ?acc s2)) = trace s2 @ interleaved (executionId s2) n (Suc i) rest bs"
        "logs (snd (run_sequential E n (Suc i) rest ?acc s2)) = logs s2 @ concat (map logs_of bs)"
        "stagehand (snd (run_sequential E n (Suc i) rest ?acc s2))"
      using Cons.IH[OF b(4), of "Suc i" ?acc] by blast
    have "list_all2 block_of (zip (step # rest) (sequential_outcomes E n i (step # rest) s)) (b # bs)"
      using p Inr b(3) bs(1) by (simp add: sequential_outcomes_Cons)
    moreover have "trace (snd (run_sequential E n i (step # rest) acc s)) =
        trace s @ interleaved (executionId s) n i (step # rest) (b # bs)"
      using p Inr b(1) b(5) bs(2) by (simp add: run_sequential_Cons)
    moreover have "logs (snd (run_sequential E n i (step # rest) acc s)) = logs s @ concat (map logs_of (b # bs))"
      using p Inr b(2) bs(3) by (simp add: run_sequential_Cons)
    moreover have "stagehand (snd (run_sequential E n i (step # rest) acc s))"
      using p Inr bs(4) by (simp add: run_sequential_Cons)
    ultimately show ?thesis by blast
  qed
qed

lemma progress_of_interleaved:
  "list_all2 block_of xs bs \<Longrightarrow> length bs \<le> length sts \<Longrightarrow>
     progress_of (interleaved eid n i sts bs) =
       map (\<lambda>j. (i + j, n, description (sts ! j))) [0..<length bs]"
proof (induction bs arbitrary: xs sts i)
  case Nil
  show ?case by (cases sts) simp_all
next
  case (Cons b bs)
  obtain x xs' where xs: "xs = x # xs'" using Cons.prems(1) by (cases xs) auto
  obtain step rest where sts: "sts = step # rest" using Cons.prems(2) by (cases sts) auto
  have b: "progress_of b = []" using Cons.prems(1) by (simp add: xs block_of_def)
  have ih: "progress_of (interleaved eid n (Suc i) rest bs) =
       map (\<lambda>j. (Suc i + j, n, description (rest ! j))) [0..<length bs]"
    using Cons.prems by (intro Cons.IH[of xs']) (simp_all add: xs sts)
  have "[0..<length (b # bs)] = 0 # map Suc [0..<length bs]"
    by (simp add: upt_conv_Cons map_Suc_upt del: upt_Suc)
  then show ?case
    by (simp add: sts b ih o_def del: upt_Suc)
qed

lemma step_log_blocks:
  "list_all2 block_of xs bs \<Longrightarrow>
     step_log (concat (map logs_of bs)) = concat (map (\<lambda>x. step_entries (fst x) (snd x)) xs)"
  by (induction rule: list_all2_induct) (simp_all add: block_of_def)

lemma calls_of_interleaved:
  "list_all2 block_of xs bs \<Longrightarrow> Close \<notin> set (calls_of (interleaved eid n i sts bs))"
proof (induction bs arbitrary: xs sts i)
  case Nil
  show ?case by (cases sts) simp_all
next
  case (Cons b bs)
  obtain x xs' where xs: "xs = x # xs'" using Cons.prems(1) by (cases xs) auto
  show ?case
  proof (cases sts)
    case Nil
    then show ?thesis by simp
  next
    case (Cons step rest)
    have "Close \<notin> set (calls_of b)" using Cons.prems(1) by (simp add: xs block_of_def)
    moreover have "Close \<notin> set (calls_of (interleaved eid n (Suc i) rest bs))"
      using Cons.prems by (intro Cons.IH[of xs']) (simp add: xs)
    ultimately show ?thesis by (simp add: Cons)
  qed
qed

lemma step_log_callbacks: "step_log (logs (callbacks E ls s)) = step_log (logs s)"
  by (induction ls arbitrary: s) (simp_all add: callbacks_def step_log_llmClient)

lemma step_log_perform: "step_log (logs (snd (perform E c s))) = step_log (logs s)"
  by (simp add: perform_eq step_log_callbacks)

lemma step_log_cleanup: "step_log (logs (snd (cleanup E s))) = step_log (logs s)"
  by (simp add: cleanup_def Let_def split_beta step_log_perform split: sum.splits)

lemma step_log_begun: "step_log (logs (begun E workflow s)) = step_log (logs s)"
  by (simp add: begun_def)

lemma step_log_catch_block: "step_log (logs (snd (catch_block E e s))) = step_log (logs s)"
  by (simp add: catch_block_def Let_def)

lemma step_log_init_failed: "step_log (logs (snd (init_failed E e s))) = step_log (logs s)"
  by (simp add: init_failed_def)

lemma step_log_apply_viewport: "step_log (logs (snd (apply_viewport E c s))) = step_log (logs s)"
  by (simp add: apply_viewport_def step_log_perform split: option.splits prod.splits)

lemma step_log_apply_userAgent: "step_log (logs (snd (apply_userAgent E c s))) = step_log (logs s)"
  by (simp add: apply_userAgent_def step_log_perform split: option.splits)

lemma step_log_initStagehand: "step_log (logs (snd (initStagehand E workflow s))) = step_log (logs s)"
proof -
  let ?s2 = "(addLog E ''info'' ''initialization'' ''Initializing browser automation...'' s)\<lparr>stagehand := True\<rparr>"
  have s2: "step_log (logs ?s2) = step_log (logs s)" by simp
  show ?thesis
  proof (cases rule: initStagehand_cases[of E workflow s])
    case (init_fails e s3)
    have "step_log (logs s3) = step_log (logs ?s2)"
      using step_log_perform[of E "Init (headless (config_of workflow))" ?s2] init_fails(1) by simp
    then show ?thesis using s2 by (simp add: init_fails(2) step_log_init_failed)
  next
    case (viewport_fails v1 s3 e s4)
    have "step_log (logs s3) = step_log (logs ?s2)"
      using step_log_perform[of E "Init (headless (config_of workflow))" ?s2] viewport_fails(1) by simp
    moreover have "step_log (logs s4) = step_log (logs s3)"
      using step_log_apply_viewport[of E "config_of workflow" s3] viewport_fails(2) by simp
    ultimately show ?thesis using s2 by (simp add: viewport_fails(3) step_log_init_failed)
  next
    case (userAgent_fails v1 s3 v2 s4 e s5)
    have "step_log (logs s3) = step_log (logs ?s2)"
      using step_log_perform[of E "Init (headless (config_of workflow))" ?s2] userAgent_fails(1) by simp
    moreover have "step_log (logs s4) = step_log (logs s3)"
      using step_log_apply_viewport[of E "config_of workflow" s3] userAgent_fails(2) by simp
    moreover have "step_log (logs s5) = step_log (logs s4)"
      using step_log_apply_userAgent[of E "config_of workflow" s4] userAgent_fails(3) by simp
    ultimately show ?thesis using s2 by (simp add: userAgent_fails(4) step_log_init_failed)
  next
    case (initialized v1 s3 v2 s4 v3 s5)
    have "step_log (logs s3) = step_log (logs ?s2)"
      using step_log_perform[of E "Init (headless (config_of workflow))" ?s2] initialized(1) by simp
    moreover have "step_log (logs s4) = step_log (logs s3)"
      using step_log_apply_viewport[of E "config_of workflow" s3] initialized(2) by simp
    moreover have "step_log (logs s5) = step_log (logs s4)"
      using step_log_apply_userAgent[of E "config_of workflow" s4] initialized(3) by simp
    ultimately show ?thesis using s2 by (simp add: initialized(4))
  qed
qed

lemma run_steps_sequential:
  "executionMode workflow = ''sequential'' \<Longrightarrow>
     run_steps E sched workflow s = run_sequential E (length (steps workflow)) 0 (steps workflow) [] s"
  by (simp add: run_steps_def)

lemma step_log_completed: "step_log (logs (snd (completed E n rs s))) = step_log (logs s)"
  by (simp add: completed_def Let_def)

text \<open>The sequential loop, seen from the state in which initialisation left the executor.\<close>

lemma sequential_loop:
  fixes E :: environment and n :: nat and sts :: "AutomationStep list" and s :: executor
  assumes h: "stagehand s"
  defines "outs \<equiv> sequential_outcomes E n 0 sts s"
    and "s2 \<equiv> snd (run_sequential E n 0 sts [] s)"
  shows "\<exists>bs. length bs = length outs \<and>
           (\<forall>j < length outs. block_of (sts ! j, outs ! j) (bs ! j)) \<and>
           new_effects s s2 = interleaved (executionId s) n 0 sts bs \<and>
           progress_of (new_effects s s2) = map (\<lambda>j. (j, n, description (sts ! j))) [0..<length outs] \<and>
           Close \<notin> set (calls_of (new_effects s s2)) \<and>
           step_log (logs s2) =
             step_log (logs s) @ concat (map (\<lambda>x. step_entries (fst x) (snd x)) (zip sts outs))"
proof -
  have len: "length outs \<le> length sts"
    unfolding outs_def by (rule sequential_outcomes_length)
  obtain bs where bs: "list_all2 block_of (zip sts outs) bs"
      "trace s2 = trace s @ interleaved (executionId s) n 0 sts bs"
      "logs s2 = logs s @ concat (map logs_of bs)"
    using run_sequential_blocks[OF h, of sts E n 0 "[]"] unfolding outs_def s2_def by blast
  have lb: "length bs = length outs"
    using list_all2_lengthD[OF bs(1)] len by simp
  have ne: "new_effects s s2 = interleaved (executionId s) n 0 sts bs"
    by (simp add: new_effects_def bs(2))
  have "\<forall>j < length outs. block_of (sts ! j, outs ! j) (bs ! j)"
  proof (intro allI impI)
    fix j assume j: "j < length outs"
    then have "j < length (zip sts outs)" using len by simp
    from list_all2_nthD[OF bs(1) this] show "block_of (sts ! j, outs ! j) (bs ! j)"
      using j len by simp
  qed
  moreover have "progress_of (new_effects s s2) = map (\<lambda>j. (j, n, description (sts ! j))) [0..<length outs]"
    using progress_of_interleaved[OF bs(1), of sts "executionId s" n 0] len lb by (simp add: ne)
  moreover have "Close \<notin> set (calls_of (new_effects s s2))"
    unfolding ne by (rule calls_of_interleaved[OF bs(1)])
  moreover have "step_log (logs s2) =
             step_log (logs s) @ concat (map (\<lambda>x. step_entries (fst x) (snd x)) (zip sts outs))"
    by (simp add: bs(3) step_log_blocks[OF bs(1)])
  ultimately show ?thesis using lb ne by blast
qed

lemma failures_append [simp]: "failures (a @ b) = failures a @ failures b"
  by (induction a rule: failures.induct) simp_all

lemma failures_map_Inr [simp]: "failures (map Inr vs) = []"
  by (induction vs) simp_all

lemma sequential_outcomes_shape:
  "(\<exists>vs. sequential_outcomes E n i sts s = map Inr vs \<and> length vs = length sts) \<or>
   (\<exists>vs e. sequential_outcomes E n i sts s = map Inr vs @ [Inl e])"
proof (induction sts arbitrary: i s)
  case Nil
  show ?case by simp
next
  case (Cons step rest)
  obtain r s2 where p: "await E (executeStep E step (emit (ExecutionProgress (executionId s) i n (description step)) s)) = (r, s2)"
    by (cases "await E (executeStep E step (emit (ExecutionProgress (executionId s) i n (description step)) s))")
  show ?case
  proof (cases r)
    case (Inl e)
    have "sequential_outcomes E n i (step # rest) s = map Inr [] @ [Inl e]"
      using p Inl by (simp add: sequential_outcomes_Cons)
    then show ?thesis by blast
  next
    case (Inr v)
    have e: "sequential_outcomes E n i (step # rest) s = Inr v # sequential_outcomes E n (Suc i) rest s2"
      using p Inr by (simp add: sequential_outcomes_Cons)
    from Cons.IH[of "Suc i" s2] show ?thesis
    proof
      assume "\<exists>vs. sequential_outcomes E n (Suc i) rest s2 = map Inr vs \<and> length vs = length rest"
      then obtain vs where "sequential_outcomes E n (Suc i) rest s2 = map Inr vs" "length vs = length rest"
        by blast
      then have "sequential_outcomes E n i (step # rest) s = map Inr (v # vs) \<and> length (v # vs) = length (step # rest)"
        by (simp add: e)
      then show ?thesis by blast
    next
      assume "\<exists>vs e. sequential_outcomes E n (Suc i) rest s2 = map Inr vs @ [Inl e]"
      then obtain vs e' where "sequential_outcomes E n (Suc i) rest s2 = map Inr vs @ [Inl e']"
        by blast
      then have "sequential_outcomes E n i (step # rest) s = map Inr (v # vs) @ [Inl e']"
        by (simp add: e)
      then show ?thesis by blast
    qed
  qed
qed


text \<open>
  C6. In sequential mode the steps run in ascending index, from the state in which
  initialisation left the executor: the trace of the loop is, for the steps that ran
  (all of them, or those up to the first failure), the progress event of step j
  (index, number of steps, description) followed by the block of the effects of step
  j; a block holds no progress event, and its step log entries are those of its step,
  from the entry before the dispatch to the entry after it. So the effects of step j
  are complete before the progress event of step j + 1, with which step j + 1 starts.
\<close>

theorem C6_sequential_order:
  fixes E :: environment and workflow :: Workflow and s0 s :: executor and sched :: "nat list"
  assumes init: "initStagehand E workflow s0 = (Inr u, s)"
  defines "sts \<equiv> steps workflow"
  defines "outs \<equiv> sequential_outcomes E (length sts) 0 sts s"
  defines "s2 \<equiv> snd (run_sequential E (length sts) 0 sts [] s)"
  shows "(executionMode workflow = ''sequential'' \<longrightarrow>
            run_steps E sched workflow s = run_sequential E (length sts) 0 sts [] s) \<and>
         length outs \<le> length sts \<and>
         (length outs = length sts \<or> (\<exists>e. last outs = Inl e)) \<and>
         (\<exists>bs. length bs = length outs \<and>
               new_effects s s2 = interleaved (executionId s) (length sts) 0 sts bs \<and>
               (\<forall>j < length outs. block_of (sts ! j, outs ! j) (bs ! j))) \<and>
         progress_of (new_effects s s2) =
           map (\<lambda>j. (j, length sts, description (sts ! j))) [0..<length outs]"
proof -
  have h: "stagehand s"
    using initStagehand_working[of s0 E workflow] init by simp
  have a: "executionMode workflow = ''sequential'' \<longrightarrow>
            run_steps E sched workflow s = run_sequential E (length sts) 0 sts [] s"
    by (simp add: run_steps_sequential sts_def)
  have b: "length outs \<le> length sts"
    unfolding outs_def by (rule sequential_outcomes_length)
  have c: "length outs = length sts \<or> (\<exists>e. last outs = Inl e)"
    using sequential_outcomes_shape[of E "length sts" 0 sts s] unfolding outs_def by auto
  from sequential_loop[OF h, of E "length sts" sts]
  obtain bs where "length bs = length outs"
      "\<forall>j < length outs. block_of (sts ! j, outs ! j) (bs ! j)"
      "new_effects s s2 = interleaved (executionId s) (length sts) 0 sts bs"
      "progress_of (new_effects s s2) = map (\<lambda>j. (j, length sts, description (sts ! j))) [0..<length outs]"
    unfolding outs_def s2_def by blast
  with a b c show ?thesis by blast
qed

theorem C6_sequential_order_witness:
  "progress_of (new_effects
      (snd (initStagehand sample_environment
              (sample_workflow ''sequential'' [sample_step ''s1'' ''navigate'' 0, sample_step ''s2'' ''scroll'' 1])
              (new_executor ''e1'' [])))
      (snd (run_sequential sample_environment 2 0
              [sample_step ''s1'' ''navigate'' 0, sample_step ''s2'' ''scroll'' 1] []
              (snd (initStagehand sample_environment
                      (sample_workflow ''sequential'' [sample_step ''s1'' ''navigate'' 0, sample_step ''s2'' ''scroll'' 1])
                      (new_executor ''e1'' [])))))) =
     [(0, 2, ''a step''), (1, 2, ''a step'')]"
proof -
  let ?sts = "[sample_step ''s1'' ''navigate'' 0, sample_step ''s2'' ''scroll'' 1]"
  let ?w = "sample_workflow ''sequential'' ?sts"
  let ?s = "snd (initStagehand sample_environment ?w (new_executor ''e1'' []))"
  have "fst (initStagehand sample_environment ?w (new_executor ''e1'' [])) = Inr ()"
    by code_simp
  then have i: "initStagehand sample_environment ?w (new_executor ''e1'' []) = (Inr (), ?s)"
    by (metis prod.collapse)
  have st: "steps ?w = ?sts" by (simp add: sample_workflow_def)
  have l: "length (sequential_outcomes sample_environment 2 0 ?sts ?s) = 2"
    by code_simp
  have d: "description (sample_step ''s1'' ''navigate'' 0) = ''a step''"
      "description (sample_step ''s2'' ''scroll'' 1) = ''a step''"
    by (simp_all add: sample_step_def)
  have u: "[0..<2] = [0, Suc 0]" by (simp add: upt_conv_Cons)
  have len: "length ?sts = 2" by simp
  have "progress_of (new_effects ?s (snd (run_sequential sample_environment (length ?sts) 0 ?sts [] ?s))) =
      map (\<lambda>j. (j, length ?sts, description (?sts ! j)))
        [0..<length (sequential_outcomes sample_environment (length ?sts) 0 ?sts ?s)]"
    using C6_sequential_order[OF i, of "[]"] unfolding st by blast
  then show ?thesis
    unfolding len l u by (simp add: d)
qed

end
